theory Spec2Isabelle
  imports Complex_Main
begin

section \<open>Numeric values of the arrays\<close>

text \<open>
  The arrays of \<^verbatim>\<open>yass/cluster/util.py\<close> hold IEEE doubles. A value is modelled as
  a finite real number or one of the special values that numpy produces instead of
  raising: \<open>PInf\<close> (\<^verbatim>\<open>np.inf\<close>), \<open>NInf\<close> and \<open>NaN\<close>. Arithmetic on finite values is
  exact: rounding, overflow and the sign of zero are not part of the model. The special
  values follow the IEEE rules that numpy applies: \<open>0/0\<close>, \<open>inf - inf\<close>, \<open>inf/inf\<close>
  and \<open>0 * inf\<close> are \<open>NaN\<close>, a non-zero finite value divided by zero is an infinity,
  every operation on \<open>NaN\<close> gives \<open>NaN\<close> and every comparison with \<open>NaN\<close> is false.
\<close>

datatype fl = Fin real | PInf | NInf | NaN

fun fadd :: "fl \<Rightarrow> fl \<Rightarrow> fl" where
  "fadd NaN _ = NaN"
| "fadd _ NaN = NaN"
| "fadd PInf NInf = NaN"
| "fadd NInf PInf = NaN"
| "fadd PInf _ = PInf"
| "fadd _ PInf = PInf"
| "fadd NInf _ = NInf"
| "fadd _ NInf = NInf"
| "fadd (Fin a) (Fin b) = Fin (a + b)"

fun fneg :: "fl \<Rightarrow> fl" where
  "fneg (Fin a) = Fin (- a)"
| "fneg PInf = NInf"
| "fneg NInf = PInf"
| "fneg NaN = NaN"

definition fsub :: "fl \<Rightarrow> fl \<Rightarrow> fl" where
  "fsub a b = fadd a (fneg b)"

text \<open>The infinity with the sign of \<open>s\<close>, and \<open>NaN\<close> for \<open>s = 0\<close>: the product of a finite
  value with an infinity, and the quotient of a finite value by zero.\<close>

fun signed_inf :: "real \<Rightarrow> fl" where
  "signed_inf s = (if s > 0 then PInf else if s < 0 then NInf else NaN)"

fun fmul :: "fl \<Rightarrow> fl \<Rightarrow> fl" where
  "fmul NaN _ = NaN"
| "fmul _ NaN = NaN"
| "fmul (Fin a) (Fin b) = Fin (a * b)"
| "fmul (Fin a) PInf = signed_inf a"
| "fmul (Fin a) NInf = signed_inf (- a)"
| "fmul PInf (Fin b) = signed_inf b"
| "fmul NInf (Fin b) = signed_inf (- b)"
| "fmul PInf PInf = PInf"
| "fmul NInf NInf = PInf"
| "fmul PInf NInf = NInf"
| "fmul NInf PInf = NInf"

text \<open>Division as numpy does it (a warning, never an exception): \<open>0/0\<close> is
  \<open>NaN\<close>, \<open>x/0\<close> is an infinity with the sign of \<open>x\<close> (the zero divisors of this
  program are sums of non-negative entries, hence positive zeros).\<close>

fun fdiv :: "fl \<Rightarrow> fl \<Rightarrow> fl" where
  "fdiv NaN _ = NaN"
| "fdiv _ NaN = NaN"
| "fdiv (Fin a) (Fin b) = (if b = 0 then signed_inf a else Fin (a / b))"
| "fdiv (Fin a) PInf = Fin 0"
| "fdiv (Fin a) NInf = Fin 0"
| "fdiv PInf (Fin b) = (if b \<ge> 0 then PInf else NInf)"
| "fdiv NInf (Fin b) = (if b \<ge> 0 then NInf else PInf)"
| "fdiv PInf PInf = NaN"
| "fdiv PInf NInf = NaN"
| "fdiv NInf PInf = NaN"
| "fdiv NInf NInf = NaN"

text \<open>\<open>flt a b\<close> is the comparison \<^verbatim>\<open>a < b\<close>; \<^verbatim>\<open>a > b\<close> is \<open>flt b a\<close>.\<close>

fun flt :: "fl \<Rightarrow> fl \<Rightarrow> bool" where
  "flt NaN _ = False"
| "flt _ NaN = False"
| "flt (Fin a) (Fin b) = (a < b)"
| "flt (Fin a) PInf = True"
| "flt NInf (Fin b) = True"
| "flt NInf PInf = True"
| "flt _ _ = False"

text \<open>\<^verbatim>\<open>np.sum\<close> of a vector; the sum of no entries is \<open>0.0\<close>.\<close>

definition fsum :: "fl list \<Rightarrow> fl" where
  "fsum xs = foldr fadd xs (Fin 0)"

fun is_fin :: "fl \<Rightarrow> bool" where
  "is_fin (Fin _) = True"
| "is_fin _ = False"

section \<open>Post-processing of the responsibilities\<close>

text \<open>
  A two-dimensional array is a list of rows. The responsibility matrix \<^verbatim>\<open>rhat\<close>
  has one row per spike and one column per component.

  \<^verbatim>\<open>vbParam.rhat[vbParam.rhat < 0.1] = 0\<close>
\<close>

definition floor_rhat :: "fl list list \<Rightarrow> fl list list" where
  "floor_rhat R = map (map (\<lambda>x. if flt x (Fin (1 / 10)) then Fin 0 else x)) R"

text \<open>\<^verbatim>\<open>vbParam.rhat = vbParam.rhat / np.sum(vbParam.rhat, 1, keepdims=True)\<close>:
  every row is divided, entry by entry, by its own sum. There is no test of the sum.\<close>

definition normalize_rhat :: "fl list list \<Rightarrow> fl list list" where
  "normalize_rhat R = map (\<lambda>row. map (\<lambda>x. fdiv x (fsum row)) row) R"

text \<open>The two statements together, as they stand after each call of the fitter in
  \<^verbatim>\<open>run_cluster\<close>, \<^verbatim>\<open>run_cluster_location\<close>, \<^verbatim>\<open>calculate_sparse_rhat\<close> and
  \<^verbatim>\<open>run_mfm\<close> (the comment there: make rhat more sparse).\<close>

definition sparsify_rhat :: "fl list list \<Rightarrow> fl list list" where
  "sparsify_rhat R = normalize_rhat (floor_rhat R)"


section \<open>Errors\<close>

text \<open>The source has no \<^verbatim>\<open>raise\<close> and no \<^verbatim>\<open>try\<close>: the exceptions are those of
  numpy and of the collaborators, and each one ends the function that meets it.\<close>

datatype error = ValueError | IndexError | TypeError | CollaboratorError

definition ebind :: "error + 'a \<Rightarrow> ('a \<Rightarrow> error + 'b) \<Rightarrow> error + 'b" where
  "ebind m f = (case m of Inl e \<Rightarrow> Inl e | Inr x \<Rightarrow> f x)"

section \<open>Mixture state\<close>

text \<open>
  \<^verbatim>\<open>vbParam\<close>: the parameter arrays are indexed by the component (axis 1 of
  \<^verbatim>\<open>muhat\<close>, axis 2 of \<^verbatim>\<open>Vhat\<close> and \<^verbatim>\<open>invVhat\<close>, axis 0 of the others).
  Each is a list over the components; an entry of \<open>muhat\<close> is the component's mean
  vector, an entry of \<open>Vhat\<close> its matrix (the trailing axis of length one is dropped).
  The field \<open>rhat\<close> is the dense matrix inside a channel and the triplet list in the
  global collection, hence the type parameter.
\<close>

record 'r vbPar =
  muhat :: "fl list list"
  Vhat :: "fl list list list"
  invVhat :: "fl list list list"
  nuhat :: "fl list"
  lambdahat :: "fl list"
  ahat :: "fl list"
  rhat :: 'r

type_synonym dense = "fl list list"
type_synonym triplets = "(nat \<times> nat \<times> fl) list"

definition with_rhat :: "'r vbPar \<Rightarrow> 'q \<Rightarrow> 'q vbPar" where
  "with_rhat v r = \<lparr>muhat = muhat v, Vhat = Vhat v, invVhat = invVhat v, nuhat = nuhat v,
     lambdahat = lambdahat v, ahat = ahat v, rhat = r\<rparr>"

text \<open>\<^verbatim>\<open>R.shape[1]\<close> of a matrix with at least one row, and its column \<open>k\<close>.\<close>

definition ncols :: "'a list list \<Rightarrow> nat" where
  "ncols R = (case R of [] \<Rightarrow> 0 | row # _ \<Rightarrow> length row)"

definition column :: "'a list list \<Rightarrow> nat \<Rightarrow> 'a list" where
  "column R k = map (\<lambda>row. row ! k) R"

text \<open>\<^verbatim>\<open>np.sum(R, 0)\<close>\<close>

definition col_sums :: "fl list list \<Rightarrow> fl list" where
  "col_sums R = map (\<lambda>k. fsum (column R k)) [0..<ncols R]"

text \<open>\<^verbatim>\<open>a[Ks]\<close> along the component axis, \<open>Ks\<close> a boolean array: numpy raises
  IndexError when the lengths differ.\<close>

definition mask_select :: "bool list \<Rightarrow> 'a list \<Rightarrow> error + 'a list" where
  "mask_select Ks xs =
     (if length Ks = length xs then Inr (map snd (filter fst (zip Ks xs))) else Inl IndexError)"

text \<open>\<^verbatim>\<open>R[:, Ks]\<close>, where \<open>Ks\<close> was computed from the columns of \<open>R\<close> itself.\<close>

definition mask_columns :: "bool list \<Rightarrow> 'a list list \<Rightarrow> 'a list list" where
  "mask_columns Ks R = map (\<lambda>row. map snd (filter fst (zip Ks row))) R"

definition clean_empty_cluster :: "dense vbPar \<Rightarrow> real \<Rightarrow> error + dense vbPar" where
  "clean_empty_cluster vbParam min_spikes =
     (let n_hat = col_sums (rhat vbParam);
          Ks = map (\<lambda>s. flt (Fin min_spikes) s) n_hat
      in ebind (mask_select Ks (muhat vbParam)) (\<lambda>mu.
         ebind (mask_select Ks (Vhat vbParam)) (\<lambda>V.
         ebind (mask_select Ks (invVhat vbParam)) (\<lambda>iV.
         ebind (mask_select Ks (lambdahat vbParam)) (\<lambda>la.
         ebind (mask_select Ks (nuhat vbParam)) (\<lambda>nu.
         ebind (mask_select Ks (ahat vbParam)) (\<lambda>a.
         Inr \<lparr>muhat = mu, Vhat = V, invVhat = iV, nuhat = nu, lambdahat = la, ahat = a,
              rhat = mask_columns Ks (rhat vbParam)\<rparr>)))))))"

section \<open>Global aggregation\<close>

text \<open>\<^verbatim>\<open>n_idx, k_idx = np.where(R > 0)\<close> with the values \<^verbatim>\<open>R[n_idx, k_idx]\<close>,
  stacked as rows \<open>(n, k, value)\<close>: row-major order. In the source the stacked array is
  of floats; the two id columns hold whole numbers and are natural numbers here.\<close>

definition np_where_pos :: "dense \<Rightarrow> triplets" where
  "np_where_pos R =
     concat (map (\<lambda>(n, row). map (\<lambda>(k, x). (n, k, x))
                                 (filter (\<lambda>(k, x). flt (Fin 0) x) (enumerate 0 row)))
                 (enumerate 0 R))"

text \<open>\<^verbatim>\<open>np.max(a)\<close> of a vector of ids: ValueError on an empty one.\<close>

definition np_max :: "nat list \<Rightarrow> error + nat" where
  "np_max xs = (case xs of [] \<Rightarrow> Inl ValueError | x # ys \<Rightarrow> Inr (fold max ys x))"

text \<open>The four global variables of the orchestrators are \<^verbatim>\<open>None\<close> together or set
  together: an optional record.\<close>

record 's global_info =
  global_vbParam :: "triplets vbPar"
  global_tmp_loc :: "nat list"
  global_score :: "'s list"
  global_spike_index :: "(nat \<times> nat) list"

definition shift_ids :: "nat \<Rightarrow> nat \<Rightarrow> triplets \<Rightarrow> triplets" where
  "shift_ids dn dk T = map (\<lambda>(n, k, x). (n + dn, k + dk, x)) T"

definition global_cluster_info ::
  "dense vbPar \<Rightarrow> nat \<Rightarrow> 's list \<Rightarrow> (nat \<times> nat) list \<Rightarrow> 's global_info option
     \<Rightarrow> error + 's global_info" where
  "global_cluster_info vbParam main_channel score spike_index g =
     (let T = np_where_pos (rhat vbParam);
          tags = replicate (length (muhat vbParam)) main_channel
      in case g of
           None \<Rightarrow>
             Inr \<lparr>global_vbParam = with_rhat vbParam T, global_tmp_loc = tags,
                  global_score = score, global_spike_index = spike_index\<rparr>
         | Some G \<Rightarrow>
             (let gv = global_vbParam G in
              ebind (np_max (map fst (rhat gv))) (\<lambda>n_max.
              ebind (np_max (map (fst \<circ> snd) (rhat gv))) (\<lambda>k_max.
              Inr \<lparr>global_vbParam =
                     \<lparr>muhat = muhat gv @ muhat vbParam,
                      Vhat = Vhat gv @ Vhat vbParam,
                      invVhat = invVhat gv @ invVhat vbParam,
                      nuhat = nuhat gv @ nuhat vbParam,
                      lambdahat = lambdahat gv @ lambdahat vbParam,
                      ahat = ahat gv @ ahat vbParam,
                      rhat = rhat gv @ shift_ids (n_max + 1) (k_max + 1) T\<rparr>,
                   global_tmp_loc = global_tmp_loc G @ tags,
                   global_score = global_score G @ score,
                   global_spike_index = global_spike_index G @ spike_index\<rparr>))))"

section \<open>Per-channel orchestrators\<close>

text \<open>\<^verbatim>\<open>idx_data = np.where(spike_index[:, 1] == channel)[0]\<close>\<close>

definition idx_of_channel :: "(nat \<times> nat) list \<Rightarrow> nat \<Rightarrow> nat list" where
  "idx_of_channel spike_index channel =
     filter (\<lambda>j. snd (spike_index ! j) = channel) [0..<length spike_index]"

text \<open>\<^verbatim>\<open>a[idx]\<close> with an index array: IndexError when an index is out of bounds.\<close>

definition take_rows :: "'a list \<Rightarrow> nat list \<Rightarrow> error + 'a list" where
  "take_rows xs idx =
     (if list_all (\<lambda>j. j < length xs) idx then Inr (map (\<lambda>j. xs ! j) idx) else Inl IndexError)"

text \<open>\<^verbatim>\<open>xs[c]\<close> on a list.\<close>

definition item :: "'a list \<Rightarrow> nat \<Rightarrow> error + 'a" where
  "item xs c = (if c < length xs then Inr (xs ! c) else Inl IndexError)"

text \<open>The fitter \<^verbatim>\<open>mfm.spikesort(scores, mask, group, CONFIG)\<close> is not part of this
  code: a parameter, \<open>spikesort scores mask group\<close>.\<close>

type_synonym 's fitter = "'s list \<Rightarrow> fl list list \<Rightarrow> nat list \<Rightarrow> dense vbPar"

text \<open>The body of the loop of \<^verbatim>\<open>run_cluster\<close> for one channel.\<close>

definition run_cluster_channel ::
  "'s fitter \<Rightarrow> 's list \<Rightarrow> fl list list list \<Rightarrow> nat list list \<Rightarrow> (nat \<times> nat) list \<Rightarrow> real
     \<Rightarrow> nat \<Rightarrow> 's global_info option \<Rightarrow> error + 's global_info option" where
  "run_cluster_channel spikesort scores masks groups spike_index min_spikes channel g =
     (let idx_data = idx_of_channel spike_index channel in
      ebind (take_rows scores idx_data) (\<lambda>score_channel.
      ebind (item masks channel) (\<lambda>mask_channel.
      ebind (item groups channel) (\<lambda>group_channel.
      ebind (take_rows spike_index idx_data) (\<lambda>spike_index_channel.
      if length score_channel > 1 then
        (let vb = spikesort score_channel mask_channel group_channel;
             vb1 = vb\<lparr>rhat := sparsify_rhat (rhat vb)\<rparr>
         in ebind (clean_empty_cluster vb1 min_spikes) (\<lambda>vbParam.
            ebind (global_cluster_info vbParam channel score_channel spike_index_channel g)
              (\<lambda>G. Inr (Some G))))
      else Inr g)))))"

text \<open>The body of the loop of \<^verbatim>\<open>run_cluster_location\<close> for one channel: an all-ones
  mask, singleton groups, and the fold only \<^verbatim>\<open>if vbParam.rhat.shape[1] > 0\<close>.\<close>

definition run_cluster_location_channel ::
  "'s fitter \<Rightarrow> 's list \<Rightarrow> (nat \<times> nat) list \<Rightarrow> real
     \<Rightarrow> nat \<Rightarrow> 's global_info option \<Rightarrow> error + 's global_info option" where
  "run_cluster_location_channel spikesort scores spike_index min_spikes channel g =
     (let idx_data = idx_of_channel spike_index channel in
      ebind (take_rows scores idx_data) (\<lambda>score_channel.
      ebind (take_rows spike_index idx_data) (\<lambda>spike_index_channel.
      let n_data = length score_channel in
      if n_data > 1 then
        (let mask = replicate n_data [Fin 1];
             group = [0..<n_data];
             vb = spikesort score_channel mask group;
             vb1 = vb\<lparr>rhat := sparsify_rhat (rhat vb)\<rparr>
         in ebind (clean_empty_cluster vb1 min_spikes) (\<lambda>vbParam.
            if ncols (rhat vbParam) > 0 then
              ebind (global_cluster_info vbParam channel score_channel spike_index_channel g)
                (\<lambda>G. Inr (Some G))
            else Inr g))
      else Inr g)))"

text \<open>\<^verbatim>\<open>for channel in range(n_channels)\<close>: the body on each channel in turn, the
  global variables threaded through; an exception ends the loop.\<close>

fun for_channels ::
  "(nat \<Rightarrow> 'g \<Rightarrow> error + 'g) \<Rightarrow> nat list \<Rightarrow> 'g \<Rightarrow> error + 'g" where
  "for_channels body [] g = Inr g"
| "for_channels body (channel # rest) g = ebind (body channel g) (for_channels body rest)"

definition run_cluster ::
  "'s fitter \<Rightarrow> 's list \<Rightarrow> fl list list list \<Rightarrow> nat list list \<Rightarrow> (nat \<times> nat) list \<Rightarrow> real
     \<Rightarrow> error + 's global_info option" where
  "run_cluster spikesort scores masks groups spike_index min_spikes =
     ebind (np_max (map snd spike_index)) (\<lambda>m.
       for_channels (run_cluster_channel spikesort scores masks groups spike_index min_spikes)
         [0..<m + 1] None)"

definition run_cluster_location ::
  "'s fitter \<Rightarrow> 's list \<Rightarrow> (nat \<times> nat) list \<Rightarrow> real \<Rightarrow> error + 's global_info option" where
  "run_cluster_location spikesort scores spike_index min_spikes =
     ebind (np_max (map snd spike_index)) (\<lambda>m.
       for_channels (run_cluster_location_channel spikesort scores spike_index min_spikes)
         [0..<m + 1] None)"

section \<open>Distance evaluator\<close>

text \<open>Vectors and matrices over the feature axis. \<open>quad_form P d\<close> is the product
  \<open>d\<^sup>T P d\<close> that the nested \<^verbatim>\<open>np.matmul\<close> calls of the merge update compute for one
  pair of components; \<open>scale_mat c V\<close> is \<^verbatim>\<open>V * c\<close>.\<close>

definition vsub :: "fl list \<Rightarrow> fl list \<Rightarrow> fl list" where
  "vsub a b = map (\<lambda>(x, y). fsub x y) (zip a b)"

definition dot :: "fl list \<Rightarrow> fl list \<Rightarrow> fl" where
  "dot a b = fsum (map (\<lambda>(x, y). fmul x y) (zip a b))"

definition quad_form :: "fl list list \<Rightarrow> fl list \<Rightarrow> fl" where
  "quad_form P d = dot d (map (\<lambda>row. dot row d) P)"

definition scale_mat :: "fl \<Rightarrow> fl list list \<Rightarrow> fl list list" where
  "scale_mat c V = map (map (\<lambda>x. fmul x c)) V"

text \<open>
  \<^verbatim>\<open>calculate_maha_clusters\<close> forms the differences of the means, the products
  \<^verbatim>\<open>Vhat * nuhat\<close> and the nested \<^verbatim>\<open>np.matmul\<close>, and hands the result to
  \<^verbatim>\<open>np.squeeze(..., axis=[2, 3])\<close>. The axis is a list, which \<^verbatim>\<open>np.squeeze\<close> refuses
  with TypeError (it takes an integer or a tuple), so the lines after it, the one that
  sets the diagonal to \<^verbatim>\<open>np.inf\<close> and the \<^verbatim>\<open>return\<close>, are never reached. Before that, the
  product and the batched \<^verbatim>\<open>matmul\<close> raise ValueError when the component axes of
  \<^verbatim>\<open>Vhat\<close>, \<^verbatim>\<open>nuhat\<close> and \<^verbatim>\<open>muhat\<close> do not broadcast (equal lengths, or one of them
  of length one); the feature axes are those of one fit and agree. On no state does the
  function return a matrix.
\<close>

definition broadcastable :: "nat \<Rightarrow> nat \<Rightarrow> bool" where
  "broadcastable a b \<longleftrightarrow> a = b \<or> a = 1 \<or> b = 1"

definition calculate_maha_clusters :: "'r vbPar \<Rightarrow> error + fl list list" where
  "calculate_maha_clusters vbParam =
     (let K = length (muhat vbParam);
          KV = length (Vhat vbParam);
          Kn = length (nuhat vbParam)
      in if broadcastable KV Kn \<and> broadcastable (if KV = 1 then Kn else KV) K
         then Inl TypeError else Inl ValueError)"

section \<open>Merge engine\<close>

text \<open>The variables of the loop of \<^verbatim>\<open>merge_move_patches\<close>: the anchor \<^verbatim>\<open>cluster\<close>,
  the queue \<^verbatim>\<open>neigh_clusters\<close> (a Python list, popped at its end), \<^verbatim>\<open>vbParam\<close> with
  its dense responsibility matrix, and the distance matrix \<^verbatim>\<open>maha\<close>.\<close>

record mstate =
  st_cluster :: nat
  st_neigh_clusters :: "nat list"
  st_vbParam :: "dense vbPar"
  st_maha :: "fl list list"

text \<open>
  The collaborators \<^verbatim>\<open>mfm.maskData\<close>, \<^verbatim>\<open>mfm.suffStatistics\<close>, \<^verbatim>\<open>mfm.ELBO_Class\<close> and
  \<^verbatim>\<open>mfm.check_merge\<close> are not part of this code. Together they are one parameter:
  from the local scores and the two-component local state to an exception or to the
  returned local state and the flag \<^verbatim>\<open>merged\<close>. On acceptance the code reads the
  returned state at component index \<open>0\<close>.
\<close>

type_synonym 's merge_test = "'s list \<Rightarrow> dense vbPar \<Rightarrow> error + (dense vbPar \<times> bool)"

text \<open>\<^verbatim>\<open>a[[cluster, i]]\<close> along the component axis, and \<^verbatim>\<open>R[:, [cluster, i]]\<close>.\<close>

definition pick2 :: "'a list \<Rightarrow> nat \<Rightarrow> nat \<Rightarrow> error + 'a list" where
  "pick2 xs a b = (if a < length xs \<and> b < length xs then Inr [xs ! a, xs ! b] else Inl IndexError)"

definition pick2_columns :: "'a list list \<Rightarrow> nat \<Rightarrow> nat \<Rightarrow> error + 'a list list" where
  "pick2_columns R a b =
     (if a < ncols R \<and> b < ncols R then Inr (map (\<lambda>row. [row ! a, row ! b]) R)
      else Inl IndexError)"

text \<open>The local two-component problem handed to the merge test: the spikes with a
  non-zero responsibility under the anchor or the candidate, their scores, and the two
  components' parameters.\<close>

definition local_problem :: "'s list \<Rightarrow> mstate \<Rightarrow> error + ('s list \<times> dense vbPar)" where
  "local_problem scores s =
     (let c = st_cluster s; i = last (st_neigh_clusters s); v = st_vbParam s in
      ebind (pick2_columns (rhat v) c i) (\<lambda>r2.
      let indices = filter (\<lambda>n. list_ex (\<lambda>x. x \<noteq> Fin 0) (r2 ! n)) [0..<length r2] in
      ebind (take_rows scores indices) (\<lambda>local_scores.
      ebind (pick2 (muhat v) c i) (\<lambda>mu.
      ebind (pick2 (Vhat v) c i) (\<lambda>V.
      ebind (pick2 (invVhat v) c i) (\<lambda>iV.
      ebind (pick2 (nuhat v) c i) (\<lambda>nu.
      ebind (pick2 (lambdahat v) c i) (\<lambda>la.
      ebind (pick2 (ahat v) c i) (\<lambda>a.
      Inr (local_scores,
           \<lparr>muhat = mu, Vhat = V, invVhat = iV, nuhat = nu, lambdahat = la, ahat = a,
            rhat = map (\<lambda>n. r2 ! n) indices\<rparr>))))))))))"

text \<open>\<^verbatim>\<open>np.delete(a, k, axis)\<close> and \<^verbatim>\<open>a[k] = v\<close> along the component axis: IndexError
  out of bounds.\<close>

definition np_delete :: "'a list \<Rightarrow> nat \<Rightarrow> error + 'a list" where
  "np_delete xs k = (if k < length xs then Inr (take k xs @ drop (Suc k) xs) else Inl IndexError)"

definition set_item :: "'a list \<Rightarrow> nat \<Rightarrow> 'a \<Rightarrow> error + 'a list" where
  "set_item xs k v = (if k < length xs then Inr (xs[k := v]) else Inl IndexError)"

text \<open>\<^verbatim>\<open>a = np.delete(a, kb, axis); a[ka] = local[0]\<close>\<close>

definition delete_and_set :: "'a list \<Rightarrow> nat \<Rightarrow> nat \<Rightarrow> 'a list \<Rightarrow> error + 'a list" where
  "delete_and_set xs kb ka loc =
     ebind (np_delete xs kb) (\<lambda>ys. ebind (item loc 0) (\<lambda>v. set_item ys ka v))"

text \<open>
  \<^verbatim>\<open>rhat[:, ka] = rhat[:, ka] + rhat[:, kb]\<close>, then the columns \<^verbatim>\<open>to_keep\<close>, all but
  \<open>kb\<close>. (\<^verbatim>\<open>to_keep\<close> is \<^verbatim>\<open>list(set(...) - set([kb]))\<close>: CPython iterates a set of small
  non-negative integers in ascending order, and the columns keep their order.)
\<close>

definition merge_rhat :: "dense \<Rightarrow> nat \<Rightarrow> nat \<Rightarrow> error + dense" where
  "merge_rhat R ka kb =
     (if ka < ncols R \<and> kb < ncols R then
        Inr (map (\<lambda>row. let row1 = row[ka := fadd (row ! ka) (row ! kb)]
                         in take kb row1 @ drop (Suc kb) row1) R)
      else Inl IndexError)"

text \<open>Assignments into the distance matrix. A value array of one element is a scalar
  after \<^verbatim>\<open>np.squeeze\<close> and fills the whole row or column; otherwise its length has to
  be that of the row or column.\<close>

definition delete_column :: "'a list list \<Rightarrow> nat \<Rightarrow> error + 'a list list" where
  "delete_column M k =
     (if k < ncols M then Inr (map (\<lambda>row. take k row @ drop (Suc k) row) M) else Inl IndexError)"

definition broadcast_to :: "'a list \<Rightarrow> nat \<Rightarrow> error + 'a list" where
  "broadcast_to vals n =
     (if length vals = 1 then Inr (replicate n (vals ! 0))
      else if length vals = n then Inr vals else Inl ValueError)"

definition set_row :: "'a list list \<Rightarrow> nat \<Rightarrow> 'a list \<Rightarrow> error + 'a list list" where
  "set_row M k vals =
     (if k < length M then ebind (broadcast_to vals (ncols M)) (\<lambda>r. Inr (M[k := r]))
      else Inl IndexError)"

definition set_column :: "'a list list \<Rightarrow> nat \<Rightarrow> 'a list \<Rightarrow> error + 'a list list" where
  "set_column M k vals =
     (if k < ncols M then
        ebind (broadcast_to vals (length M)) (\<lambda>c. Inr (map (\<lambda>(row, x). row[k := x]) (zip M c)))
      else Inl IndexError)"

definition set_entry :: "'a list list \<Rightarrow> nat \<Rightarrow> nat \<Rightarrow> 'a \<Rightarrow> error + 'a list list" where
  "set_entry M a b x =
     (if a < length M \<and> b < length (M ! a) then Inr (M[a := (M ! a)[b := x]])
      else Inl IndexError)"

text \<open>The update of \<^verbatim>\<open>maha\<close> after an accepted merge: column and row \<open>kb\<close> deleted,
  row \<open>ka\<close> recomputed under the merged component's precision, column \<open>ka\<close> under each
  component's own, and \<^verbatim>\<open>maha[ka, ka] = np.inf\<close>. \<open>v\<close> is \<^verbatim>\<open>vbParam\<close> after its update,
  \<open>lv\<close> the state returned by the merge test.\<close>

definition accept_maha ::
  "dense vbPar \<Rightarrow> dense vbPar \<Rightarrow> fl list list \<Rightarrow> nat \<Rightarrow> nat \<Rightarrow> error + fl list list" where
  "accept_maha v lv M ka kb =
     ebind (delete_column M kb) (\<lambda>M1.
     ebind (np_delete M1 kb) (\<lambda>M2.
     ebind (item (muhat lv) 0) (\<lambda>mu0.
     ebind (item (Vhat lv) 0) (\<lambda>V0.
     ebind (item (nuhat lv) 0) (\<lambda>nu0.
     let diff = map (\<lambda>mu. vsub mu mu0) (muhat v) in
     ebind (set_row M2 ka (map (quad_form (scale_mat nu0 V0)) diff)) (\<lambda>M3.
     if length (Vhat v) = length (muhat v) \<and> length (nuhat v) = length (muhat v) then
       ebind (set_column M3 ka
                (map (\<lambda>j. quad_form (scale_mat (nuhat v ! j) (Vhat v ! j)) (diff ! j))
                     [0..<length diff])) (\<lambda>M4.
       set_entry M4 ka ka PInf)
     else Inl ValueError))))))"

text \<open>\<^verbatim>\<open>list(np.where(np.logical_or(maha[ka] < 15, maha.T[ka] < 15))[0])\<close>\<close>

definition gate_neighbours :: "fl list list \<Rightarrow> nat \<Rightarrow> error + nat list" where
  "gate_neighbours M ka =
     (if ka < length M \<and> ka < ncols M then
        if ncols M = length M then
          Inr (filter (\<lambda>j. flt (M ! ka ! j) (Fin 15) \<or> flt (M ! j ! ka) (Fin 15)) [0..<length M])
        else Inl ValueError
      else Inl IndexError)"

text \<open>The branch \<^verbatim>\<open>if merged:\<close>\<close>

definition merge_accept :: "mstate \<Rightarrow> dense vbPar \<Rightarrow> error + mstate" where
  "merge_accept s lv =
     (let v = st_vbParam s; c = st_cluster s; i = last (st_neigh_clusters s);
          ka = min c i; kb = max c i in
      ebind (delete_and_set (muhat v) kb ka (muhat lv)) (\<lambda>mu.
      ebind (delete_and_set (Vhat v) kb ka (Vhat lv)) (\<lambda>V.
      ebind (delete_and_set (invVhat v) kb ka (invVhat lv)) (\<lambda>iV.
      ebind (delete_and_set (nuhat v) kb ka (nuhat lv)) (\<lambda>nu.
      ebind (delete_and_set (lambdahat v) kb ka (lambdahat lv)) (\<lambda>la.
      ebind (delete_and_set (ahat v) kb ka (ahat lv)) (\<lambda>a.
      ebind (merge_rhat (rhat v) ka kb) (\<lambda>R.
      let v' = \<lparr>muhat = mu, Vhat = V, invVhat = iV, nuhat = nu, lambdahat = la, ahat = a,
                rhat = R\<rparr> in
      ebind (accept_maha v' lv (st_maha s) ka kb) (\<lambda>M.
      ebind (gate_neighbours M ka) (\<lambda>nb.
      Inr \<lparr>st_cluster = ka, st_neigh_clusters = nb, st_vbParam = v', st_maha = M\<rparr>))))))))))"

text \<open>The branch \<^verbatim>\<open>if not merged:\<close>\<close>

definition merge_reject :: "mstate \<Rightarrow> error + mstate" where
  "merge_reject s =
     (let c = st_cluster s; i = last (st_neigh_clusters s); ka = min c i; kb = max c i in
      ebind (set_entry (st_maha s) ka kb PInf) (\<lambda>M1.
      ebind (set_entry M1 kb ka PInf) (\<lambda>M2.
      Inr (s\<lparr>st_neigh_clusters := butlast (st_neigh_clusters s), st_maha := M2\<rparr>))))"

text \<open>One pass through the body of the \<^verbatim>\<open>while\<close> loop, the queue not empty.\<close>

definition merge_iter :: "'s merge_test \<Rightarrow> 's list \<Rightarrow> mstate \<Rightarrow> error + mstate" where
  "merge_iter check_merge scores s =
     ebind (local_problem scores s) (\<lambda>(local_scores, local_vbParam).
     ebind (check_merge local_scores local_vbParam) (\<lambda>(lv, merged).
     if merged then merge_accept s lv else merge_reject s))"

text \<open>\<^verbatim>\<open>while len(neigh_clusters) > 0\<close>. Nothing in the loop bounds the number of passes
  beforehand, so the loop is a partial function: \<open>None\<close> is a loop that never ends.\<close>

partial_function (option) merge_loop ::
  "'s merge_test \<Rightarrow> 's list \<Rightarrow> mstate \<Rightarrow> (error + mstate) option" where
  "merge_loop check_merge scores s =
     (if st_neigh_clusters s = [] then Some (Inr s)
      else case merge_iter check_merge scores s of
             Inl e \<Rightarrow> Some (Inl e)
           | Inr s' \<Rightarrow> merge_loop check_merge scores s')"

definition merge_move_patches ::
  "'s merge_test \<Rightarrow> nat \<Rightarrow> nat list \<Rightarrow> 's list \<Rightarrow> dense vbPar \<Rightarrow> fl list list
     \<Rightarrow> (error + dense vbPar \<times> fl list list) option" where
  "merge_move_patches check_merge cluster neigh_clusters scores vbParam maha =
     map_option (map_sum id (\<lambda>s. (st_vbParam s, st_maha s)))
       (merge_loop check_merge scores
          \<lparr>st_cluster = cluster, st_neigh_clusters = neigh_clusters, st_vbParam = vbParam,
           st_maha = maha\<rparr>)"

declare merge_loop.simps [code]

section \<open>Feature channels of the splitting pipeline\<close>

text \<open>
  The waveforms of one channel's spikes, after \<^verbatim>\<open>np.swapaxes(wf_data, 2, 0)\<close>: channels
  by samples by spikes. The values are finite here (real numbers), with at least one
  sample and one spike. \<^verbatim>\<open>robust.mad\<close> (statsmodels) is a parameter. \<^verbatim>\<open>np.argsort\<close> is a
  sort of the indices by their keys; numpy does not fix the order of equal keys, the
  stable order stands for it here.
\<close>

definition mean :: "real list \<Rightarrow> real" where
  "mean xs = sum_list xs / real (length xs)"

definition amax :: "real list \<Rightarrow> real" where
  "amax xs = fold max (tl xs) (hd xs)"

definition amin :: "real list \<Rightarrow> real" where
  "amin xs = fold min (tl xs) (hd xs)"

definition ptp :: "real list \<Rightarrow> real" where
  "ptp xs = amax xs - amin xs"

definition argsort :: "real list \<Rightarrow> nat list" where
  "argsort ks = sort_key (\<lambda>i. ks ! i) [0..<length ks]"

text \<open>\<^verbatim>\<open>np.union1d\<close>: the sorted unique values of both.\<close>

definition union1d :: "nat list \<Rightarrow> nat list \<Rightarrow> nat list" where
  "union1d a b = sort (remdups (a @ b))"

text \<open>Lines 654 to 670 of \<^verbatim>\<open>run_cluster_features\<close>.\<close>

definition feature_channels ::
  "(real list \<Rightarrow> real) \<Rightarrow> real list list list \<Rightarrow> nat \<Rightarrow> nat \<Rightarrow> nat list" where
  "feature_channels mad wf_data n_mad_chans n_max_chans =
     (let template = map (map mean) wf_data;
          rank_amp_chans = map (\<lambda>row. amax (map abs row)) template;
          rank_indexes = rev (argsort rank_amp_chans);
          max_chans = take n_max_chans rank_indexes;
          ptps = map ptp template;
          chan_indexes_2SU = filter (\<lambda>c. 2 < ptps ! c) [0..<length ptps];
          rank_chans_max = map (\<lambda>c. amax (map mad (wf_data ! c))) chan_indexes_2SU;
          rank_indexes = rev (argsort rank_chans_max);
          mad_chans = take n_mad_chans (map (\<lambda>r. chan_indexes_2SU ! r) rank_indexes)
      in union1d max_chans mad_chans)"

section \<open>Stability loop of the splitting pipeline\<close>

text \<open>\<^verbatim>\<open>np.mean\<close> of a vector; of no entries it is \<open>0/0\<close>.\<close>

definition fmean :: "fl list \<Rightarrow> fl" where
  "fmean xs = fdiv (fsum xs) (Fin (real (length xs)))"

text \<open>\<^verbatim>\<open>index = np.where(rhat[:, k] > 0)[0]\<close> and \<^verbatim>\<open>np.mean(rhat[index, k])\<close>\<close>

definition support :: "dense \<Rightarrow> nat \<Rightarrow> nat list" where
  "support R k = filter (\<lambda>n. flt (Fin 0) (R ! n ! k)) [0..<length R]"

definition stability_of :: "dense \<Rightarrow> nat \<Rightarrow> fl" where
  "stability_of R k = fmean (map (\<lambda>n. R ! n ! k) (support R k))"

text \<open>\<^verbatim>\<open>np.argmax\<close>: the first index of the largest value, a \<open>NaN\<close> counting as the
  largest; ValueError on an empty sequence.\<close>

fun is_nan :: "fl \<Rightarrow> bool" where
  "is_nan NaN = True"
| "is_nan _ = False"

definition exceeds :: "fl \<Rightarrow> fl \<Rightarrow> bool" where
  "exceeds y b = (if is_nan b then False else if is_nan y then True else flt b y)"

fun argmax_from :: "nat \<Rightarrow> fl \<Rightarrow> nat \<Rightarrow> fl list \<Rightarrow> nat" where
  "argmax_from bi b i [] = bi"
| "argmax_from bi b i (y # ys) =
     (if exceeds y b then argmax_from i y (Suc i) ys else argmax_from bi b (Suc i) ys)"

definition np_argmax :: "fl list \<Rightarrow> error + nat" where
  "np_argmax xs = (case xs of [] \<Rightarrow> Inl ValueError | x # ys \<Rightarrow> Inr (argmax_from 0 x 1 ys))"

text \<open>\<^verbatim>\<open>np.delete(a, idx)\<close> with a list of positions (repetitions allowed): IndexError
  when a position is out of bounds.\<close>

definition np_delete_many :: "'a list \<Rightarrow> nat list \<Rightarrow> error + 'a list" where
  "np_delete_many xs idx =
     (if list_all (\<lambda>j. j < length xs) idx
      then Inr (map (\<lambda>j. xs ! j) (filter (\<lambda>j. j \<notin> set idx) [0..<length xs]))
      else Inl IndexError)"

text \<open>
  The loop \<^verbatim>\<open>for k in range(vbParam2.rhat.shape[1])\<close> of one round: a component whose
  stability exceeds \<open>0.90\<close> has its positions added to \<^verbatim>\<open>remove_indexes\<close> and its points
  \<^verbatim>\<open>index_vals[index]\<close> appended to \<^verbatim>\<open>rolling_index_array\<close>. (The lists \<^verbatim>\<open>indexes\<close> and
  \<^verbatim>\<open>stability\<close> are \<open>support\<close> and \<open>stability_of\<close> on every component.)
\<close>

fun scan_components ::
  "nat list \<Rightarrow> dense \<Rightarrow> nat list \<Rightarrow> nat list \<times> nat list list
     \<Rightarrow> error + nat list \<times> nat list list" where
  "scan_components index_vals R [] acc = Inr acc"
| "scan_components index_vals R (k # ks) (remove_indexes, rolling) =
     (if flt (Fin (9 / 10)) (stability_of R k) then
        ebind (take_rows index_vals (support R k)) (\<lambda>points.
          scan_components index_vals R ks (remove_indexes @ support R k, rolling @ [points]))
      else scan_components index_vals R ks (remove_indexes, rolling))"

text \<open>The extraction of one round: the stable components, or else the most stable one.
  Returns the remaining \<^verbatim>\<open>index_vals\<close> and the extended \<^verbatim>\<open>rolling_index_array\<close>.\<close>

definition extract_round ::
  "nat list \<Rightarrow> dense \<Rightarrow> nat list list \<Rightarrow> error + nat list \<times> nat list list" where
  "extract_round index_vals R rolling =
     ebind (scan_components index_vals R [0..<ncols R] ([], rolling))
       (\<lambda>(remove_indexes, rolling1).
          if 0 < length remove_indexes then
            ebind (np_delete_many index_vals remove_indexes) (\<lambda>rest. Inr (rest, rolling1))
          else
            ebind (np_argmax (map (stability_of R) [0..<ncols R])) (\<lambda>most_stable.
            let index = support R most_stable in
            ebind (take_rows index_vals index) (\<lambda>points.
            ebind (np_delete_many index_vals index) (\<lambda>rest.
            Inr (rest, rolling1 @ [points])))))"

text \<open>
  \<^verbatim>\<open>for s in range(1000)\<close>. The alignment, the projection and the fitter of a round are
  one parameter \<open>refit\<close>: from the round and the remaining points to the responsibilities
  of the new fit, which the code then floors and normalizes. The result is
  \<^verbatim>\<open>rolling_index_array\<close> together with the number of rounds that were run.
\<close>

function run_mfm_loop ::
  "(nat \<Rightarrow> nat list \<Rightarrow> dense) \<Rightarrow> nat \<Rightarrow> nat list \<Rightarrow> dense \<Rightarrow> nat list list
     \<Rightarrow> error + nat list list \<times> nat" where
  "run_mfm_loop refit s index_vals R rolling =
     (if s < 1000 then
        ebind (extract_round index_vals R rolling) (\<lambda>(rest, rolling1).
          if length rest \<le> 35 then Inr (rolling1, Suc s)
          else
            let R1 = sparsify_rhat (refit s rest) in
            if ncols R1 = 1 then Inr (rolling1 @ [rest], Suc s)
            else run_mfm_loop refit (Suc s) rest R1 rolling1)
      else Inr (rolling, s))"
  by pat_completeness auto
termination
  by (relation "measure (\<lambda>(refit, s, index_vals, R, rolling). 1000 - s)") auto

text \<open>\<^verbatim>\<open>run_mfm\<close>: \<open>rhat0\<close> is the responsibility matrix of the initial fit,
  \<open>idx_keep1\<close> the triage mask; the points are numbered \<open>0\<close> to \<open>n - 1\<close>, \<open>n\<close> the number
  of points kept.\<close>

definition run_mfm ::
  "dense \<Rightarrow> (nat \<Rightarrow> nat list \<Rightarrow> dense) \<Rightarrow> bool list \<Rightarrow> error + nat list list \<times> nat" where
  "run_mfm rhat0 refit idx_keep1 =
     run_mfm_loop refit 0 [0..<length (filter id idx_keep1)] (sparsify_rhat rhat0) []"

section \<open>Properties of the post-processing\<close>

lemma all_fin_map: "\<forall>x\<in>set row. is_fin x \<Longrightarrow> \<exists>rs. row = map Fin rs"
proof (induction row)
  case Nil
  then show ?case by simp
next
  case (Cons x row)
  then obtain rs where "row = map Fin rs" by auto
  moreover from Cons.prems obtain r where "x = Fin r" by (cases x) auto
  ultimately have "x # row = map Fin (r # rs)" by simp
  then show ?case ..
qed

lemma fsum_map_Fin: "fsum (map Fin rs) = Fin (sum_list rs)"
  by (induction rs) (simp_all add: fsum_def)

lemma sum_list_div: "sum_list (map (\<lambda>x. x / s) rs) = sum_list rs / (s::real)"
  by (induction rs) (simp_all add: add_divide_distrib)

text \<open>The floor on a finite value.\<close>

definition floor_real :: "real \<Rightarrow> real" where
  "floor_real r = (if r < 1 / 10 then 0 else r)"

lemma floor_row_Fin:
  "map (\<lambda>x. if flt x (Fin (1 / 10)) then Fin 0 else x) (map Fin rs) = map Fin (map floor_real rs)"
  by (induction rs) (simp_all add: floor_real_def)

lemma floor_sum_pos:
  assumes "\<exists>r\<in>set rs. \<not> r < 1 / 10"
  shows "0 < sum_list (map floor_real rs)"
proof -
  from assms obtain r where r: "r \<in> set rs" "\<not> r < 1 / 10" by blast
  have nonneg: "\<forall>x\<in>set (map floor_real rs). 0 \<le> x"
    by (auto simp: floor_real_def)
  have "floor_real r \<in> set (map floor_real rs)" using r by simp
  then have "floor_real r \<le> sum_list (map floor_real rs)"
    using nonneg by (meson member_le_sum_list)
  moreover have "0 < floor_real r" using r by (simp add: floor_real_def)
  ultimately show ?thesis by linarith
qed

text \<open>A channel of two spikes and eleven components: the first spike belongs to the
  first component, the second is spread evenly, \<open>1/11\<close> on each component.\<close>

definition rhat_even :: "fl list list" where
  "rhat_even = [Fin 1 # replicate 10 (Fin 0), replicate 11 (Fin (1 / 11))]"

text \<open>
  C1, as stated, fails. Every entry of the second spike is below the floor, so its row is
  zeroed, the row sum is \<open>0\<close>, and the division that follows is \<open>0/0\<close> on every
  entry: the matrix handed to pruning holds a row of \<open>NaN\<close>.
\<close>

theorem C1_zero_row_gives_nan:
  "fsum (floor_rhat rhat_even ! 1) = Fin 0 \<and> sparsify_rhat rhat_even ! 1 = replicate 11 NaN"
  by (simp add: rhat_even_def sparsify_rhat_def normalize_rhat_def floor_rhat_def fsum_def
      eval_nat_numeral)

text \<open>
  C1, amended: for a spike whose row holds finite values of which at least one is not
  below the floor \<open>0.1\<close>, the row sum after zeroing is a positive finite number (so
  the division is not by zero), every entry of the normalized row is finite (no \<open>NaN\<close>,
  no infinity), and the normalized row sums to \<open>1\<close>.
\<close>

theorem C1_sparsify_rhat_row:
  assumes i: "i < length R"
    and fin: "\<forall>x\<in>set (R ! i). is_fin x"
    and keep: "\<exists>x\<in>set (R ! i). \<not> flt x (Fin (1 / 10))"
  shows "(\<exists>s>0. fsum (floor_rhat R ! i) = Fin s)
       \<and> (\<forall>y\<in>set (sparsify_rhat R ! i). is_fin y)
       \<and> fsum (sparsify_rhat R ! i) = Fin 1"
proof -
  from fin obtain rs where rs: "R ! i = map Fin rs" using all_fin_map by blast
  let ?fs = "map floor_real rs"
  let ?s = "sum_list ?fs"
  have fl: "floor_rhat R ! i = map Fin ?fs"
    using i by (simp only: floor_rhat_def nth_map rs floor_row_Fin)
  from keep rs have "\<exists>r\<in>set rs. \<not> r < 1 / 10" by auto
  then have pos: "0 < ?s" by (rule floor_sum_pos)
  have sum: "fsum (floor_rhat R ! i) = Fin ?s" by (simp only: fl fsum_map_Fin)
  have out: "sparsify_rhat R ! i = map Fin (map (\<lambda>x. x / ?s) ?fs)"
  proof -
    have "sparsify_rhat R ! i = map (\<lambda>x. fdiv x (fsum (floor_rhat R ! i))) (floor_rhat R ! i)"
      using i by (simp add: sparsify_rhat_def normalize_rhat_def floor_rhat_def)
    also have "\<dots> = map (\<lambda>x. fdiv x (Fin ?s)) (map Fin ?fs)"
      by (simp only: fl fsum_map_Fin)
    also have "\<dots> = map Fin (map (\<lambda>x. x / ?s) ?fs)"
      using pos by simp
    finally show ?thesis .
  qed
  have "fsum (sparsify_rhat R ! i) = Fin (?s / ?s)"
    unfolding out fsum_map_Fin sum_list_div ..
  then have one: "fsum (sparsify_rhat R ! i) = Fin 1" using pos by simp
  have allfin: "\<forall>y\<in>set (sparsify_rhat R ! i). is_fin y" unfolding out by auto
  from sum pos allfin one show ?thesis by blast
qed

theorem C1_sparsify_rhat_row_witness:
  "0 < length rhat_even
   \<and> list_all is_fin (rhat_even ! 0)
   \<and> (\<exists>x\<in>set (rhat_even ! 0). \<not> flt x (Fin (1 / 10)))
   \<and> (\<exists>s>0. fsum (floor_rhat rhat_even ! 0) = Fin s)
   \<and> list_all is_fin (sparsify_rhat rhat_even ! 0)
   \<and> fsum (sparsify_rhat rhat_even ! 0) = Fin 1"
proof -
  have a: "0 < length rhat_even" by (simp add: rhat_even_def)
  have b: "\<forall>x\<in>set (rhat_even ! 0). is_fin x" by (simp add: rhat_even_def)
  have c: "\<exists>x\<in>set (rhat_even ! 0). \<not> flt x (Fin (1 / 10))" by (simp add: rhat_even_def)
  from a b c C1_sparsify_rhat_row [OF a b c] show ?thesis
    unfolding list_all_iff by blast
qed


section \<open>The orchestrators on a channel that pruning empties\<close>

lemma ebind_Inr [simp]: "ebind (Inr x) f = f x"
  by (simp add: ebind_def)

lemma ebind_Inl [simp]: "ebind (Inl e) f = Inl e"
  by (simp add: ebind_def)

lemma ebind_Inr_iff: "ebind m f = Inr y \<longleftrightarrow> (\<exists>x. m = Inr x \<and> f x = Inr y)"
  by (cases m) simp_all

text \<open>A channel with fewer than two spikes leaves the global state as it is, in both
  orchestrators; so does, in \<^verbatim>\<open>run_cluster_location\<close>, a channel whose components are all
  pruned.\<close>

lemma take_rows_cases:
  "take_rows xs idx = Inl IndexError \<or> (\<exists>ys. take_rows xs idx = Inr ys \<and> length ys = length idx)"
  by (simp add: take_rows_def)

lemma item_cases: "item xs c = Inl IndexError \<or> (\<exists>y. item xs c = Inr y)"
  by (simp add: item_def)

lemma few_spikes_run_cluster:
  assumes "length (idx_of_channel spike_index channel) < 2"
  shows "run_cluster_channel spikesort scores masks groups spike_index min_spikes channel g = Inr g
       \<or> run_cluster_channel spikesort scores masks groups spike_index min_spikes channel g
           = Inl IndexError"
  using assms take_rows_cases [of scores "idx_of_channel spike_index channel"]
    take_rows_cases [of spike_index "idx_of_channel spike_index channel"]
    item_cases [of masks channel] item_cases [of groups channel]
  by (auto simp: run_cluster_channel_def Let_def)

lemma few_spikes_run_cluster_location:
  assumes "length (idx_of_channel spike_index channel) < 2"
  shows "run_cluster_location_channel spikesort scores spike_index min_spikes channel g = Inr g
       \<or> run_cluster_location_channel spikesort scores spike_index min_spikes channel g
           = Inl IndexError"
  using assms take_rows_cases [of scores "idx_of_channel spike_index channel"]
    take_rows_cases [of spike_index "idx_of_channel spike_index channel"]
  by (auto simp: run_cluster_location_channel_def Let_def)

lemma no_component_run_cluster_location:
  assumes "take_rows scores (idx_of_channel spike_index channel) = Inr score_channel"
    and "clean_empty_cluster
           ((spikesort score_channel (replicate (length score_channel) [Fin 1])
               [0..<length score_channel])
              \<lparr>rhat := sparsify_rhat (rhat (spikesort score_channel
                  (replicate (length score_channel) [Fin 1]) [0..<length score_channel]))\<rparr>)
           min_spikes = Inr vbParam"
    and "ncols (rhat vbParam) = 0"
  shows "run_cluster_location_channel spikesort scores spike_index min_spikes channel g = Inr g"
  using assms take_rows_cases [of spike_index "idx_of_channel spike_index channel"]
  by (auto simp: run_cluster_location_channel_def Let_def take_rows_def list_all_iff idx_of_channel_def)

text \<open>A fitter for the examples: one component that takes every spike.\<close>

definition fit_single :: "nat fitter" where
  "fit_single scores msk grp =
     \<lparr>muhat = [[Fin 0]], Vhat = [[[Fin 1]]], invVhat = [[[Fin 1]]], nuhat = [Fin 1],
      lambdahat = [Fin 1], ahat = [Fin 1], rhat = replicate (length scores) [Fin 1]\<rparr>"

text \<open>
  C5: \<^verbatim>\<open>run_cluster\<close> has no test of the component count before the fold, where
  \<^verbatim>\<open>run_cluster_location\<close> has \<^verbatim>\<open>if vbParam.rhat.shape[1] > 0\<close>. Two spikes on channel 0
  and a threshold of 20: the one component has mass 2 and is pruned. \<^verbatim>\<open>run_cluster\<close> folds
  the empty state (the global collection exists, with no component and no triplet), and with
  two more spikes on channel 1 the next fold raises ValueError from \<^verbatim>\<open>np.max\<close> of the
  empty triplet array; \<^verbatim>\<open>run_cluster_location\<close> leaves the global state untouched.
\<close>

theorem C5_run_cluster_folds_pruned_channel:
  "run_cluster fit_single [1, 2] [[[Fin 1], [Fin 1]]] [[0, 1]] [(10, 0), (20, 0)] 20 =
     Inr (Some \<lparr>global_vbParam = \<lparr>muhat = [], Vhat = [], invVhat = [], nuhat = [],
                   lambdahat = [], ahat = [], rhat = []\<rparr>,
                 global_tmp_loc = [], global_score = [1, 2],
                 global_spike_index = [(10, 0), (20, 0)]\<rparr>)
   \<and> run_cluster_location fit_single [1, 2] [(10, 0), (20, 0)] 20 = Inr None
   \<and> run_cluster fit_single [1, 2, 3, 4] [[[Fin 1], [Fin 1]], [[Fin 1], [Fin 1]]]
         [[0, 1], [0, 1]] [(10, 0), (20, 0), (30, 1), (40, 1)] 20 = Inl ValueError
   \<and> run_cluster_location fit_single [1, 2, 3, 4] [(10, 0), (20, 0), (30, 1), (40, 1)] 20
         = Inr None"
  by code_simp

section \<open>Sequences of folds\<close>

text \<open>A sequence of calls of \<^verbatim>\<open>global_cluster_info\<close>, the global variables starting at
  \<^verbatim>\<open>None\<close> and threaded through, as the orchestrators do: each element is the arguments
  \<open>(vbParam, main_channel, score, spike_index)\<close> of one call.\<close>

type_synonym 's fold_input = "dense vbPar \<times> nat \<times> 's list \<times> (nat \<times> nat) list"

fun fold_channels :: "'s global_info option \<Rightarrow> 's fold_input list \<Rightarrow> error + 's global_info option" where
  "fold_channels g [] = Inr g"
| "fold_channels g ((vbParam, main_channel, score, spike_index) # rest) =
     ebind (global_cluster_info vbParam main_channel score spike_index g)
       (\<lambda>G. fold_channels (Some G) rest)"

definition components_populated :: "dense vbPar \<Rightarrow> bool" where
  "components_populated v \<longleftrightarrow>
     0 < length (muhat v)
     \<and> list_all (\<lambda>row. length row = length (muhat v)) (rhat v)
     \<and> list_all (\<lambda>k. list_ex (\<lambda>row. flt (Fin 0) (row ! k)) (rhat v)) [0..<length (muhat v)]"

fun shifted_component_ids :: "nat \<Rightarrow> 's fold_input list \<Rightarrow> nat list" where
  "shifted_component_ids off [] = []"
| "shifted_component_ids off ((v, c, sc, si) # rest) =
     map (\<lambda>(n, k, x). k + off) (np_where_pos (rhat v))
       @ shifted_component_ids (off + length (muhat v)) rest"

lemma np_where_pos_iff:
  "(n, k, x) \<in> set (np_where_pos R) \<longleftrightarrow>
     n < length R \<and> k < length (R ! n) \<and> x = R ! n ! k \<and> flt (Fin 0) x"
proof
  assume "(n, k, x) \<in> set (np_where_pos R)"
  then show "n < length R \<and> k < length (R ! n) \<and> x = R ! n ! k \<and> flt (Fin 0) x"
    by (auto simp: np_where_pos_def in_set_enumerate_eq)
next
  assume a: "n < length R \<and> k < length (R ! n) \<and> x = R ! n ! k \<and> flt (Fin 0) x"
  let ?f = "\<lambda>(n, row). map (\<lambda>(k, x). (n, k, x))
                (filter (\<lambda>(k, x). flt (Fin 0) x) (enumerate 0 row))"
  from a have 1: "(n, R ! n) \<in> set (enumerate 0 R)"
    by (simp add: in_set_enumerate_eq)
  from a have "k < length (R ! n)" "R ! n ! k = x" "flt (Fin 0) x" by blast+
  then have "(k, x) \<in> set (filter (\<lambda>(k, x). flt (Fin 0) x) (enumerate 0 (R ! n)))"
    by (simp add: in_set_enumerate_eq)
  then have 2: "(n, k, x) \<in> set (?f (n, R ! n))"
    by (simp add: image_iff)
  from 1 2 have "\<exists>p\<in>set (enumerate 0 R). (n, k, x) \<in> set (?f p)" by (rule bexI [rotated])
  then show "(n, k, x) \<in> set (np_where_pos R)"
    unfolding np_where_pos_def set_concat set_map by blast
qed

lemma fold_max_Max: "fold max ys (x::nat) = Max (set (x # ys))"
  by (simp only: Max.set_eq_fold)

lemma np_max_Inr_iff: "np_max xs = Inr m \<longleftrightarrow> xs \<noteq> [] \<and> m = Max (set xs)"
  by (cases xs) (auto simp: np_max_def fold_max_Max)

lemma np_max_append_shift:
  assumes "np_max xs = Inr m" and "np_max ys = Inr m'"
  shows "np_max (xs @ map (\<lambda>y. y + (m + 1)) ys) = Inr (m + 1 + m')"
proof -
  from assms have xs: "xs \<noteq> []" "m = Max (set xs)" and ys: "ys \<noteq> []" "m' = Max (set ys)"
    by (simp_all add: np_max_Inr_iff)
  let ?zs = "xs @ map (\<lambda>y. y + (m + 1)) ys"
  have "Max (set ?zs) = m + 1 + m'"
  proof (rule Max_eqI)
    show "finite (set ?zs)" by simp
  next
    fix z assume "z \<in> set ?zs"
    then consider "z \<in> set xs" | y where "y \<in> set ys" "z = y + (m + 1)" by auto
    then show "z \<le> m + 1 + m'"
    proof cases
      case 1
      then have "z \<le> m" using xs by simp
      then show ?thesis by simp
    next
      case 2
      then have "y \<le> m'" using ys by simp
      with 2 show ?thesis by simp
    qed
  next
    have "m' \<in> set ys" using ys Max_in [of "set ys"] by simp
    then have "m' + (m + 1) \<in> set ?zs" by auto
    then show "m + 1 + m' \<in> set ?zs" by (simp add: add.commute)
  qed
  then show ?thesis using xs by (simp add: np_max_Inr_iff)
qed

lemma comp_ids_populated:
  assumes "components_populated v"
  shows "np_max (map (fst \<circ> snd) (np_where_pos (rhat v))) = Inr (length (muhat v) - 1)"
proof -
  let ?K = "length (muhat v)"
  let ?ids = "map (fst \<circ> snd) (np_where_pos (rhat v))"
  from assms have K: "0 < ?K"
    and rows: "\<forall>row\<in>set (rhat v). length row = ?K"
    and pop: "\<forall>k<?K. \<exists>row\<in>set (rhat v). flt (Fin 0) (row ! k)"
    by (auto simp: components_populated_def list_all_iff list_ex_iff)
  have bound: "\<forall>k\<in>set ?ids. k \<le> ?K - 1"
  proof
    fix k assume "k \<in> set ?ids"
    then obtain n x where "(n, k, x) \<in> set (np_where_pos (rhat v))" by force
    then have "n < length (rhat v)" "k < length (rhat v ! n)" by (simp_all add: np_where_pos_iff)
    with rows have "k < ?K" by (metis nth_mem)
    then show "k \<le> ?K - 1" by simp
  qed
  from K pop obtain row where row: "row \<in> set (rhat v)" "flt (Fin 0) (row ! (?K - 1))"
    by (metis diff_less zero_less_one)
  then obtain n where n: "n < length (rhat v)" "rhat v ! n = row" by (meson in_set_conv_nth)
  with rows row K have "(n, ?K - 1, row ! (?K - 1)) \<in> set (np_where_pos (rhat v))"
    by (simp add: np_where_pos_iff)
  then have mem: "?K - 1 \<in> set ?ids" by force
  then have ne: "?ids \<noteq> []" by auto
  have "Max (set ?ids) = ?K - 1"
    using mem bound by (intro Max_eqI) auto
  with ne show ?thesis by (simp add: np_max_Inr_iff)
qed


lemma ebind_assoc: "ebind (ebind m f) h = ebind m (\<lambda>x. ebind (f x) h)"
  by (cases m) simp_all

lemma fold_channels_snoc:
  "fold_channels g (xs @ [(v, c, sc, si)]) =
     ebind (fold_channels g xs) (\<lambda>g'. ebind (global_cluster_info v c sc si g') (\<lambda>G. Inr (Some G)))"
proof (induction xs arbitrary: g)
  case Nil
  then show ?case by simp
next
  case (Cons x xs)
  obtain v' c' sc' si' where x: "x = (v', c', sc', si')" by (cases x) auto
  show ?case by (simp add: x Cons.IH ebind_assoc)
qed

definition total_components :: "'s fold_input list \<Rightarrow> nat" where
  "total_components ins = sum_list (map (\<lambda>(v, c, sc, si). length (muhat v)) ins)"

lemma total_components_simps [simp]:
  "total_components [] = 0"
  "total_components ((v, c, sc, si) # xs) = length (muhat v) + total_components xs"
  "total_components (xs @ ys) = total_components xs + total_components ys"
  by (simp_all add: total_components_def)

lemma shifted_component_ids_snoc:
  "shifted_component_ids off (xs @ [(v, c, sc, si)]) =
     shifted_component_ids off xs
       @ map (\<lambda>(n, k, x). k + (off + total_components xs)) (np_where_pos (rhat v))"
proof (induction xs arbitrary: off)
  case Nil
  then show ?case by simp
next
  case (Cons x xs)
  obtain v' c' sc' si' where x: "x = (v', c', sc', si')" by (cases x) auto
  show ?case by (simp add: x Cons.IH add.assoc)
qed

lemma global_cluster_info_first:
  "global_cluster_info v c sc si None =
     Inr \<lparr>global_vbParam = with_rhat v (np_where_pos (rhat v)),
          global_tmp_loc = replicate (length (muhat v)) c,
          global_score = sc, global_spike_index = si\<rparr>"
  by (simp add: global_cluster_info_def)

lemma global_cluster_info_next:
  assumes "np_max (map fst (rhat (global_vbParam G))) = Inr nm"
    and "np_max (map (fst \<circ> snd) (rhat (global_vbParam G))) = Inr km"
  shows "global_cluster_info v c sc si (Some G) =
     Inr \<lparr>global_vbParam =
            \<lparr>muhat = muhat (global_vbParam G) @ muhat v,
             Vhat = Vhat (global_vbParam G) @ Vhat v,
             invVhat = invVhat (global_vbParam G) @ invVhat v,
             nuhat = nuhat (global_vbParam G) @ nuhat v,
             lambdahat = lambdahat (global_vbParam G) @ lambdahat v,
             ahat = ahat (global_vbParam G) @ ahat v,
             rhat = rhat (global_vbParam G) @ shift_ids (nm + 1) (km + 1) (np_where_pos (rhat v))\<rparr>,
          global_tmp_loc = global_tmp_loc G @ replicate (length (muhat v)) c,
          global_score = global_score G @ sc,
          global_spike_index = global_spike_index G @ si\<rparr>"
  using assms by (simp add: global_cluster_info_def Let_def)

lemma comp_ids_shift:
  "map (fst \<circ> snd) (shift_ids dn dk T) = map (\<lambda>k. k + dk) (map (fst \<circ> snd) T)"
  by (simp add: shift_ids_def case_prod_beta)

lemma comp_ids_shift':
  "map (fst \<circ> snd) (shift_ids dn dk T) = map (\<lambda>(n, k, x). k + dk) T"
  by (simp add: shift_ids_def case_prod_beta)

lemma spike_ids_shift:
  "map fst (shift_ids dn dk T) = map (\<lambda>n. n + dn) (map fst T)"
  by (simp add: shift_ids_def case_prod_beta)

text \<open>The state of the components after a sequence of folds.\<close>

definition components_aligned :: "'s fold_input list \<Rightarrow> 's global_info \<Rightarrow> bool" where
  "components_aligned ins G \<longleftrightarrow>
     length (global_tmp_loc G) = total_components ins
     \<and> length (muhat (global_vbParam G)) = total_components ins
     \<and> 0 < total_components ins
     \<and> np_max (map (fst \<circ> snd) (rhat (global_vbParam G))) = Inr (total_components ins - 1)
     \<and> map (fst \<circ> snd) (rhat (global_vbParam G)) = shifted_component_ids 0 ins"

lemma fold_components_aligned:
  assumes "ins \<noteq> []"
    and "list_all (\<lambda>p. components_populated (fst p)) ins"
  shows "\<exists>G. fold_channels None ins = Inr (Some G) \<and> components_aligned ins G"
  using assms
proof (induction ins rule: rev_nonempty_induct)
  case (single x)
  obtain v c sc si where x: "x = (v, c, sc, si)" by (cases x) auto
  from single x have pop: "components_populated v" by simp
  then have K: "0 < length (muhat v)" by (simp add: components_populated_def)
  let ?G = "\<lparr>global_vbParam = with_rhat v (np_where_pos (rhat v)),
          global_tmp_loc = replicate (length (muhat v)) c,
          global_score = sc, global_spike_index = si\<rparr>"
  have "fold_channels None [x] = Inr (Some ?G)"
    by (simp add: x global_cluster_info_first)
  moreover have "components_aligned [x] ?G"
    using K comp_ids_populated [OF pop]
    by (simp add: components_aligned_def x with_rhat_def case_prod_beta comp_def)
  ultimately show ?case by blast
next
  case (snoc x xs)
  obtain v c sc si where x: "x = (v, c, sc, si)" by (cases x) auto
  from snoc.prems x have pop: "components_populated v"
    and rest: "list_all (\<lambda>p. components_populated (fst p)) xs" by simp_all
  from snoc.IH [OF rest] obtain G where G: "fold_channels None xs = Inr (Some G)"
    and al: "components_aligned xs G" by blast
  let ?tot = "total_components xs"
  let ?K = "length (muhat v)"
  from al have km: "np_max (map (fst \<circ> snd) (rhat (global_vbParam G))) = Inr (?tot - 1)"
    and tot: "0 < ?tot" unfolding components_aligned_def by blast+
  from km have "rhat (global_vbParam G) \<noteq> []" by (auto simp: np_max_Inr_iff)
  then obtain nm where nm: "np_max (map fst (rhat (global_vbParam G))) = Inr nm"
    by (simp add: np_max_Inr_iff)
  let ?G' = "\<lparr>global_vbParam =
            \<lparr>muhat = muhat (global_vbParam G) @ muhat v,
             Vhat = Vhat (global_vbParam G) @ Vhat v,
             invVhat = invVhat (global_vbParam G) @ invVhat v,
             nuhat = nuhat (global_vbParam G) @ nuhat v,
             lambdahat = lambdahat (global_vbParam G) @ lambdahat v,
             ahat = ahat (global_vbParam G) @ ahat v,
             rhat = rhat (global_vbParam G) @ shift_ids (nm + 1) (?tot - 1 + 1) (np_where_pos (rhat v))\<rparr>,
          global_tmp_loc = global_tmp_loc G @ replicate ?K c,
          global_score = global_score G @ sc,
          global_spike_index = global_spike_index G @ si\<rparr>"
  have step: "fold_channels None (xs @ [x]) = Inr (Some ?G')"
    by (simp add: x fold_channels_snoc G global_cluster_info_next [OF nm km])
  have K: "0 < ?K" using pop by (simp add: components_populated_def)
  have mx: "np_max (map (fst \<circ> snd) (rhat (global_vbParam ?G'))) = Inr (?tot + ?K - 1)"
    using np_max_append_shift [OF km comp_ids_populated [OF pop]] tot K
    by (simp add: comp_ids_shift)
  have ids: "map (fst \<circ> snd) (rhat (global_vbParam ?G')) = shifted_component_ids 0 (xs @ [x])"
    using al tot by (simp add: components_aligned_def x shifted_component_ids_snoc comp_ids_shift')
  have "components_aligned (xs @ [x]) ?G'"
    using al tot K mx ids by (simp add: components_aligned_def x)
  with step show ?case by blast
qed


subsection \<open>Alignment of the spike ids\<close>

text \<open>A folded channel's arrays agree in their row counts (the score, the spike
  references and the rows of \<^verbatim>\<open>rhat\<close> all come from \<^verbatim>\<open>idx_data\<close>); every spike of
  it has a responsibility above zero, that is, a triplet. \<open>spikes_of_triplets\<close> reads
  the feature vector and the spike reference that the spike id of each triplet indexes.\<close>

definition shapes_agree :: "'s fold_input \<Rightarrow> bool" where
  "shapes_agree p = (case p of (v, c, sc, si) \<Rightarrow>
     length (rhat v) = length sc \<and> length si = length sc)"

definition every_spike_assigned :: "'s fold_input \<Rightarrow> bool" where
  "every_spike_assigned p = (case p of (v, c, sc, si) \<Rightarrow>
     0 < length sc \<and> list_all (list_ex (\<lambda>x. flt (Fin 0) x)) (rhat v))"

definition spikes_of_triplets :: "'s list \<Rightarrow> (nat \<times> nat) list \<Rightarrow> triplets \<Rightarrow> ('s \<times> (nat \<times> nat) \<times> fl) list" where
  "spikes_of_triplets sc si T = map (\<lambda>t. (sc ! fst t, si ! fst t, snd (snd t))) T"

definition rows_aligned :: "'s fold_input list \<Rightarrow> 's global_info \<Rightarrow> bool" where
  "rows_aligned ins G \<longleftrightarrow>
     global_score G = concat (map (\<lambda>p. fst (snd (snd p))) ins)
     \<and> global_spike_index G = concat (map (\<lambda>p. snd (snd (snd p))) ins)
     \<and> length (global_spike_index G) = length (global_score G)
     \<and> list_all (\<lambda>t. fst t < length (global_score G)) (rhat (global_vbParam G))
     \<and> spikes_of_triplets (global_score G) (global_spike_index G) (rhat (global_vbParam G))
         = concat (map (\<lambda>p. spikes_of_triplets (fst (snd (snd p))) (snd (snd (snd p)))
                                (np_where_pos (rhat (fst p)))) ins)"

definition rows_full :: "'s global_info \<Rightarrow> bool" where
  "rows_full G \<longleftrightarrow> 0 < length (global_score G)
     \<and> np_max (map fst (rhat (global_vbParam G))) = Inr (length (global_score G) - 1)"

lemma spike_ids_bound:
  "t \<in> set (np_where_pos R) \<Longrightarrow> fst t < length R"
  by (cases t) (simp add: np_where_pos_iff)

lemma spike_ids_assigned:
  assumes "every_spike_assigned (v, c, sc, si)" and "shapes_agree (v, c, sc, si)"
  shows "np_max (map fst (np_where_pos (rhat v))) = Inr (length sc - 1)"
proof -
  let ?n = "length sc"
  let ?ids = "map fst (np_where_pos (rhat v))"
  from assms have n: "0 < ?n" and len: "length (rhat v) = ?n"
    and ex: "\<forall>row\<in>set (rhat v). \<exists>x\<in>set row. flt (Fin 0) x"
    by (auto simp: every_spike_assigned_def shapes_agree_def list_all_iff list_ex_iff)
  have bound: "\<forall>i\<in>set ?ids. i \<le> ?n - 1"
    using spike_ids_bound [of _ "rhat v"] len by fastforce
  have "rhat v ! (?n - 1) \<in> set (rhat v)" using n len by simp
  with ex obtain x where "x \<in> set (rhat v ! (?n - 1))" "flt (Fin 0) x" by blast
  then obtain k where "k < length (rhat v ! (?n - 1))" "rhat v ! (?n - 1) ! k = x" "flt (Fin 0) x"
    by (meson in_set_conv_nth)
  then have "(?n - 1, k, x) \<in> set (np_where_pos (rhat v))"
    using n len by (simp add: np_where_pos_iff)
  then have mem: "?n - 1 \<in> set ?ids" by force
  then have ne: "?ids \<noteq> []" by auto
  have "Max (set ?ids) = ?n - 1" using mem bound by (intro Max_eqI) auto
  with ne show ?thesis by (simp add: np_max_Inr_iff)
qed

lemma spikes_of_triplets_append:
  "spikes_of_triplets sc si (T @ U) = spikes_of_triplets sc si T @ spikes_of_triplets sc si U"
  by (simp add: spikes_of_triplets_def)

lemma spikes_of_triplets_old:
  assumes "list_all (\<lambda>t. fst t < length sc) T" and "length si = length sc"
  shows "spikes_of_triplets (sc @ sc') (si @ si') T = spikes_of_triplets sc si T"
  using assms by (simp add: spikes_of_triplets_def list_all_iff nth_append)

lemma spikes_of_triplets_new:
  assumes "length si = length sc"
  shows "spikes_of_triplets (sc @ sc') (si @ si') (shift_ids (length sc) dk T)
         = spikes_of_triplets sc' si' T"
  using assms by (simp add: spikes_of_triplets_def shift_ids_def case_prod_beta nth_append)

lemma rows_aligned_first:
  assumes "shapes_agree (v, c, sc, si)"
  shows "\<exists>G. fold_channels None [(v, c, sc, si)] = Inr (Some G) \<and> rows_aligned [(v, c, sc, si)] G
           \<and> (every_spike_assigned (v, c, sc, si) \<longrightarrow> rows_full G)"
proof -
  let ?G = "\<lparr>global_vbParam = with_rhat v (np_where_pos (rhat v)),
          global_tmp_loc = replicate (length (muhat v)) c,
          global_score = sc, global_spike_index = si\<rparr>"
  from assms have len: "length (rhat v) = length sc" "length si = length sc"
    by (simp_all add: shapes_agree_def)
  have 1: "fold_channels None [(v, c, sc, si)] = Inr (Some ?G)"
    by (simp add: global_cluster_info_first)
  have "list_all (\<lambda>t. fst t < length sc) (np_where_pos (rhat v))"
    using spike_ids_bound [of _ "rhat v"] len by (auto simp: list_all_iff)
  then have 2: "rows_aligned [(v, c, sc, si)] ?G"
    using len by (simp add: rows_aligned_def with_rhat_def)
  have 3: "every_spike_assigned (v, c, sc, si) \<longrightarrow> rows_full ?G"
    using spike_ids_assigned [OF _ assms]
    by (auto simp: rows_full_def with_rhat_def every_spike_assigned_def)
  from 1 2 3 show ?thesis by blast
qed

lemma rows_aligned_step:
  assumes G: "fold_channels None xs = Inr (Some G)"
    and al: "rows_aligned xs G" and full: "rows_full G"
    and sh: "shapes_agree (v, c, sc, si)"
  shows "\<exists>G'. fold_channels None (xs @ [(v, c, sc, si)]) = Inr (Some G')
           \<and> rows_aligned (xs @ [(v, c, sc, si)]) G'
           \<and> (every_spike_assigned (v, c, sc, si) \<longrightarrow> rows_full G')"
proof -
  let ?L = "length (global_score G)"
  from full have L: "0 < ?L"
    and nm: "np_max (map fst (rhat (global_vbParam G))) = Inr (?L - 1)"
    unfolding rows_full_def by blast+
  from nm have "rhat (global_vbParam G) \<noteq> []" by (auto simp: np_max_Inr_iff)
  then obtain km where km: "np_max (map (fst \<circ> snd) (rhat (global_vbParam G))) = Inr km"
    by (simp add: np_max_Inr_iff)
  from sh have len: "length (rhat v) = length sc" "length si = length sc"
    by (simp_all add: shapes_agree_def)
  from al have gs: "global_score G = concat (map (\<lambda>p. fst (snd (snd p))) xs)"
    and gi: "global_spike_index G = concat (map (\<lambda>p. snd (snd (snd p))) xs)"
    and gl: "length (global_spike_index G) = ?L"
    and old: "list_all (\<lambda>t. fst t < ?L) (rhat (global_vbParam G))"
    and sp: "spikes_of_triplets (global_score G) (global_spike_index G) (rhat (global_vbParam G))
         = concat (map (\<lambda>p. spikes_of_triplets (fst (snd (snd p))) (snd (snd (snd p)))
                                (np_where_pos (rhat (fst p)))) xs)"
    unfolding rows_aligned_def by blast+
  let ?T = "shift_ids ?L (km + 1) (np_where_pos (rhat v))"
  let ?G' = "\<lparr>global_vbParam =
            \<lparr>muhat = muhat (global_vbParam G) @ muhat v,
             Vhat = Vhat (global_vbParam G) @ Vhat v,
             invVhat = invVhat (global_vbParam G) @ invVhat v,
             nuhat = nuhat (global_vbParam G) @ nuhat v,
             lambdahat = lambdahat (global_vbParam G) @ lambdahat v,
             ahat = ahat (global_vbParam G) @ ahat v,
             rhat = rhat (global_vbParam G) @ ?T\<rparr>,
          global_tmp_loc = global_tmp_loc G @ replicate (length (muhat v)) c,
          global_score = global_score G @ sc,
          global_spike_index = global_spike_index G @ si\<rparr>"
  have step: "fold_channels None (xs @ [(v, c, sc, si)]) = Inr (Some ?G')"
    using L by (simp add: fold_channels_snoc G global_cluster_info_next [OF nm km])
  have new: "list_all (\<lambda>t. fst t < ?L + length sc) ?T"
    using spike_ids_bound [of _ "rhat v"] len
    by (auto simp: list_all_iff shift_ids_def)
  have old': "list_all (\<lambda>t. fst t < ?L + length sc) (rhat (global_vbParam G))"
    using old by (auto simp: list_all_iff)
  have sp': "spikes_of_triplets (global_score G @ sc) (global_spike_index G @ si)
               (rhat (global_vbParam G) @ ?T)
             = concat (map (\<lambda>p. spikes_of_triplets (fst (snd (snd p))) (snd (snd (snd p)))
                                (np_where_pos (rhat (fst p)))) xs)
               @ spikes_of_triplets sc si (np_where_pos (rhat v))"
    by (simp only: spikes_of_triplets_append spikes_of_triplets_old [OF old gl]
          spikes_of_triplets_new [OF gl] sp)
  have 2: "rows_aligned (xs @ [(v, c, sc, si)]) ?G'"
    using gs gi gl len old' new sp' by (simp add: rows_aligned_def)
  have 3: "rows_full ?G'" if "every_spike_assigned (v, c, sc, si)"
  proof -
    have "np_max (map fst (rhat (global_vbParam G) @ ?T)) = Inr (?L - 1 + 1 + (length sc - 1))"
      using np_max_append_shift [OF nm spike_ids_assigned [OF that sh]] L
      by (simp add: spike_ids_shift)
    moreover have n: "0 < length sc" using that by (simp add: every_spike_assigned_def)
    moreover have "?L - 1 + 1 + (length sc - 1) = ?L + length sc - 1" using L n by arith
    ultimately have "np_max (map fst (rhat (global_vbParam G) @ ?T)) = Inr (?L + length sc - 1)"
      by (simp only:)
    then show ?thesis using L by (simp add: rows_full_def)
  qed
  from step 2 3 show ?thesis by blast
qed

lemma fold_rows_aligned:
  assumes "list_all every_spike_assigned prev"
    and "list_all shapes_agree prev"
    and "shapes_agree (v, c, sc, si)"
  shows "\<exists>G. fold_channels None (prev @ [(v, c, sc, si)]) = Inr (Some G)
           \<and> rows_aligned (prev @ [(v, c, sc, si)]) G
           \<and> (every_spike_assigned (v, c, sc, si) \<longrightarrow> rows_full G)"
  using assms
proof (induction prev arbitrary: v c sc si rule: rev_induct)
  case Nil
  then show ?case using rows_aligned_first by simp
next
  case (snoc x xs)
  obtain v' c' sc' si' where x: "x = (v', c', sc', si')" by (cases x) auto
  from snoc.prems x have a: "list_all every_spike_assigned xs" "list_all shapes_agree xs"
    "shapes_agree (v', c', sc', si')" "every_spike_assigned (v', c', sc', si')" by simp_all
  from snoc.IH [OF a(1) a(2) a(3)] a(4) obtain G where
    "fold_channels None (xs @ [x]) = Inr (Some G)" "rows_aligned (xs @ [x]) G" "rows_full G"
    unfolding x by blast
  from rows_aligned_step [OF this snoc.prems(3)] show ?case .
qed


text \<open>What pruning leaves: with a threshold that is not negative, every component kept
  by \<^verbatim>\<open>clean_empty_cluster\<close> has a responsibility above zero, since its column sum is above
  the threshold.\<close>

lemma fsum_positive_entry:
  assumes "flt (Fin 0) (fsum xs)"
  shows "\<exists>x\<in>set xs. flt (Fin 0) x"
proof (rule ccontr)
  assume "\<not> (\<exists>x\<in>set xs. flt (Fin 0) x)"
  then have "\<forall>x\<in>set xs. \<not> flt (Fin 0) x" by simp
  then have "\<not> flt (Fin 0) (fsum xs)"
  proof (induction xs)
    case Nil
    then show ?case by (simp add: fsum_def)
  next
    case (Cons x xs)
    then have x: "\<not> flt (Fin 0) x" and s: "\<not> flt (Fin 0) (fsum xs)" by simp_all
    have "fsum (x # xs) = fadd x (fsum xs)" by (simp add: fsum_def)
    moreover from x s have "\<not> flt (Fin 0) (fadd x (fsum xs))"
      by (cases x; cases "fsum xs") auto
    ultimately show ?case by simp
  qed
  with assms show False by simp
qed

lemma flt_mono_left: "flt (Fin m) s \<Longrightarrow> 0 \<le> m \<Longrightarrow> flt (Fin 0) s"
  by (cases s) auto

lemma mask_as_indices:
  "length row = length Ks \<Longrightarrow>
     map snd (filter fst (zip Ks row)) = map (\<lambda>i. row ! i) (filter (\<lambda>i. Ks ! i) [0..<length Ks])"
proof (induction Ks arbitrary: row rule: rev_induct)
  case Nil
  then show ?case by simp
next
  case (snoc b Ks)
  then obtain row' x where row: "row = row' @ [x]" and len: "length row' = length Ks"
    by (cases row rule: rev_cases) auto
  have f: "filter (\<lambda>i. (Ks @ [b]) ! i) [0..<length Ks] = filter (\<lambda>i. Ks ! i) [0..<length Ks]"
    by (rule filter_cong) (simp_all add: nth_append)
  have m: "map (\<lambda>i. (row' @ [x]) ! i) (filter (\<lambda>i. Ks ! i) [0..<length Ks])
         = map (\<lambda>i. row' ! i) (filter (\<lambda>i. Ks ! i) [0..<length Ks])"
    using len by (intro map_cong) (auto simp: nth_append)
  have last: "(row' @ [x]) ! length Ks = x" using len by (simp add: nth_append)
  show ?case using snoc.IH [OF len] len by (simp add: row f m last)
qed

lemma pruned_components_populated:
  assumes c: "clean_empty_cluster v m = Inr v'" and m: "0 \<le> m"
    and rect: "list_all (\<lambda>row. length row = ncols (rhat v)) (rhat v)"
    and some: "0 < ncols (rhat v')"
  shows "components_populated v'"
proof -
  let ?R = "rhat v"
  let ?Ks = "map (\<lambda>s. flt (Fin m) s) (col_sums ?R)"
  let ?idx = "filter (\<lambda>i. ?Ks ! i) [0..<length ?Ks]"
  have lK: "length ?Ks = ncols ?R" by (simp add: col_sums_def)
  from c have mu: "muhat v' = map snd (filter fst (zip ?Ks (muhat v)))"
    and lmu: "length ?Ks = length (muhat v)"
    and R': "rhat v' = mask_columns ?Ks ?R"
    by (auto simp: clean_empty_cluster_def Let_def ebind_Inr_iff mask_select_def split: if_splits)
  from mask_as_indices [of "muhat v" ?Ks] lmu
  have lmu': "length (muhat v') = length ?idx" by (simp add: mu)
  from rect have rows: "\<And>row. row \<in> set ?R \<Longrightarrow> length row = length ?Ks"
    unfolding lK by (simp add: list_all_iff)
  have R'': "rhat v' = map (\<lambda>row. map (\<lambda>i. row ! i) ?idx) ?R"
    unfolding R' mask_columns_def by (rule map_cong) (simp_all add: mask_as_indices rows)
  from some have "rhat v' \<noteq> []" by (auto simp: ncols_def)
  then have "0 < length ?idx" using some by (cases ?R) (simp_all add: R'' ncols_def)
  then have 1: "0 < length (muhat v')" by (simp add: lmu')
  have 2: "\<forall>row\<in>set (rhat v'). length row = length (muhat v')"
    by (auto simp: R'' lmu')
  have 3: "\<exists>row\<in>set (rhat v'). flt (Fin 0) (row ! j)" if j: "j < length (muhat v')" for j
  proof -
    from j have ji: "j < length ?idx" by (simp add: lmu')
    then have mem: "?idx ! j \<in> set ?idx" by (rule nth_mem)
    then have k': "?idx ! j < length ?Ks" and K: "?Ks ! (?idx ! j)" by simp_all
    from k' have k: "?idx ! j < ncols ?R" unfolding lK .
    from K k have "flt (Fin m) (fsum (column ?R (?idx ! j)))" by (simp add: col_sums_def)
    from fsum_positive_entry [OF flt_mono_left [OF this m]]
    obtain row where row: "row \<in> set ?R" "flt (Fin 0) (row ! (?idx ! j))"
      by (auto simp: column_def)
    then have "map (\<lambda>i. row ! i) ?idx \<in> set (rhat v')"
      unfolding R'' set_map by (intro imageI)
    moreover have "flt (Fin 0) (map (\<lambda>i. row ! i) ?idx ! j)" using row(2) ji by simp
    ultimately show ?thesis by blast
  qed
  from 1 2 3 show ?thesis
    by (simp add: components_populated_def list_all_iff list_ex_iff)
qed

definition v_single :: "dense vbPar" where
  "v_single = \<lparr>muhat = [[Fin 0]], Vhat = [[[Fin 1]]], invVhat = [[[Fin 1]]], nuhat = [Fin 1],
      lambdahat = [Fin 1], ahat = [Fin 1], rhat = [[Fin 1], [Fin 1]]\<rparr>"

definition v_gap :: "dense vbPar" where
  "v_gap = \<lparr>muhat = [[Fin 0], [Fin 5]], Vhat = [[[Fin 1]], [[Fin 1]]],
      invVhat = [[[Fin 1]], [[Fin 1]]], nuhat = [Fin 1, Fin 1],
      lambdahat = [Fin 1, Fin 1], ahat = [Fin 1, Fin 1], rhat = [[Fin 1, Fin 0], [Fin 1, Fin 0]]\<rparr>"

definition v_none :: "dense vbPar" where
  "v_none = \<lparr>muhat = [], Vhat = [], invVhat = [], nuhat = [], lambdahat = [], ahat = [],
      rhat = [[], []]\<rparr>"

definition two_channels :: "nat fold_input list" where
  "two_channels = [(v_single, 0, [1, 2], [(10, 0), (20, 0)]), (v_single, 1, [3, 4], [(30, 1), (40, 1)])]"

text \<open>
  C3, as stated, fails. The offset of a fold is the largest id present in the triplet
  list, not the number of components. A folded state whose last component has no
  responsibility above zero (\<open>v_gap\<close>: two components, every spike on the first)
  leaves two origin-channel tags and two components while the largest component id is
  \<open>0\<close>. A folded state with no component (\<open>v_none\<close>, what \<^verbatim>\<open>run_cluster\<close> folds after
  pruning has emptied a channel) leaves no triplet, and the next fold raises ValueError.
\<close>

theorem C3_component_ids_counterexample:
  "map_sum id (\<lambda>G. (length (global_tmp_loc G), length (muhat (global_vbParam G)),
                      np_max (map (fst \<circ> snd) (rhat (global_vbParam G)))))
     (global_cluster_info v_gap 0 [1, 2::nat] [(10, 0), (20, 0)] None) = Inr (2, 2, Inr 0)
   \<and> fold_channels None [(v_none, 0, [1, 2::nat], [(10, 0), (20, 0)]),
                          (v_single, 1, [3, 4], [(30, 1), (40, 1)])] = Inl ValueError"
  by code_simp

text \<open>
  C3, amended: for every non-empty sequence of folds in which each folded state has at
  least one component, a row length equal to its component count, and in every column an
  entry above zero (what pruning with a non-negative threshold leaves): no fold raises;
  the origin-channel array, the component axis and the largest component id plus one all
  equal the sum of the folded component counts; the component ids are the local ids
  shifted by the number of components folded before; and on each non-first fold the
  appended triplets are the incoming ones shifted by the largest spike id plus one and
  the largest component id plus one, no new component id being one already present.
\<close>

theorem C3_fold_component_ids:
  assumes ne: "ins \<noteq> []"
    and pop: "list_all (\<lambda>p. components_populated (fst p)) ins"
  shows "\<exists>G. fold_channels None ins = Inr (Some G)
     \<and> length (global_tmp_loc G) = total_components ins
     \<and> length (muhat (global_vbParam G)) = total_components ins
     \<and> 0 < total_components ins
     \<and> np_max (map (fst \<circ> snd) (rhat (global_vbParam G))) = Inr (total_components ins - 1)
     \<and> map (fst \<circ> snd) (rhat (global_vbParam G)) = shifted_component_ids 0 ins
     \<and> (\<forall>xs v c sc si. ins = xs @ [(v, c, sc, si)] \<and> xs \<noteq> [] \<longrightarrow>
          (\<exists>G0 nm km. fold_channels None xs = Inr (Some G0)
             \<and> np_max (map fst (rhat (global_vbParam G0))) = Inr nm
             \<and> np_max (map (fst \<circ> snd) (rhat (global_vbParam G0))) = Inr km
             \<and> rhat (global_vbParam G) =
                 rhat (global_vbParam G0) @ shift_ids (nm + 1) (km + 1) (np_where_pos (rhat v))
             \<and> list_all (\<lambda>t. fst (snd t) \<notin> set (map (fst \<circ> snd) (rhat (global_vbParam G0))))
                 (shift_ids (nm + 1) (km + 1) (np_where_pos (rhat v)))))"
proof -
  from fold_components_aligned [OF ne pop] obtain G where
    G: "fold_channels None ins = Inr (Some G)" and al: "components_aligned ins G" by blast
  have step: "\<exists>G0 nm km. fold_channels None xs = Inr (Some G0)
             \<and> np_max (map fst (rhat (global_vbParam G0))) = Inr nm
             \<and> np_max (map (fst \<circ> snd) (rhat (global_vbParam G0))) = Inr km
             \<and> rhat (global_vbParam G) =
                 rhat (global_vbParam G0) @ shift_ids (nm + 1) (km + 1) (np_where_pos (rhat v))
             \<and> list_all (\<lambda>t. fst (snd t) \<notin> set (map (fst \<circ> snd) (rhat (global_vbParam G0))))
                 (shift_ids (nm + 1) (km + 1) (np_where_pos (rhat v)))"
    if split: "ins = xs @ [(v, c, sc, si)]" and xs: "xs \<noteq> []" for xs v c sc si
  proof -
    from pop split have "list_all (\<lambda>p. components_populated (fst p)) xs" by simp
    from fold_components_aligned [OF xs this] obtain G0 where
      G0: "fold_channels None xs = Inr (Some G0)" and al0: "components_aligned xs G0" by blast
    from al0 have km: "np_max (map (fst \<circ> snd) (rhat (global_vbParam G0)))
        = Inr (total_components xs - 1)"
      unfolding components_aligned_def by blast
    then have "rhat (global_vbParam G0) \<noteq> []" by (auto simp: np_max_Inr_iff)
    then obtain nm where nm: "np_max (map fst (rhat (global_vbParam G0))) = Inr nm"
      by (simp add: np_max_Inr_iff)
    let ?km = "total_components xs - 1"
    let ?T = "shift_ids (nm + 1) (?km + 1) (np_where_pos (rhat v))"
    have "fold_channels None ins = ebind (global_cluster_info v c sc si (Some G0)) (\<lambda>G. Inr (Some G))"
      by (simp add: split fold_channels_snoc G0)
    with G have r: "rhat (global_vbParam G) = rhat (global_vbParam G0) @ ?T"
      by (auto simp: global_cluster_info_next [OF nm km])
    have "\<forall>k\<in>set (map (fst \<circ> snd) (rhat (global_vbParam G0))). k \<le> ?km"
      using km by (simp add: np_max_Inr_iff)
    moreover have "\<forall>t\<in>set ?T. ?km < fst (snd t)"
      by (auto simp: shift_ids_def)
    ultimately have "list_all (\<lambda>t. fst (snd t) \<notin> set (map (fst \<circ> snd) (rhat (global_vbParam G0)))) ?T"
      unfolding list_all_iff by (metis not_le)
    with G0 nm km r show ?thesis by blast
  qed
  from al have "length (global_tmp_loc G) = total_components ins"
     "length (muhat (global_vbParam G)) = total_components ins"
     "0 < total_components ins"
     "np_max (map (fst \<circ> snd) (rhat (global_vbParam G))) = Inr (total_components ins - 1)"
     "map (fst \<circ> snd) (rhat (global_vbParam G)) = shifted_component_ids 0 ins"
    unfolding components_aligned_def by blast+
  with G step show ?thesis by blast
qed

theorem C3_fold_component_ids_witness:
  "two_channels \<noteq> []
   \<and> list_all (\<lambda>p. components_populated (fst p)) two_channels
   \<and> (\<exists>G. fold_channels None two_channels = Inr (Some G)
        \<and> length (global_tmp_loc G) = 2
        \<and> length (muhat (global_vbParam G)) = 2
        \<and> np_max (map (fst \<circ> snd) (rhat (global_vbParam G))) = Inr 1
        \<and> map (fst \<circ> snd) (rhat (global_vbParam G)) = [0, 0, 1, 1])"
proof -
  have a: "two_channels \<noteq> []" by (simp add: two_channels_def)
  have b: "list_all (\<lambda>p. components_populated (fst p)) two_channels" by code_simp
  have c: "total_components two_channels = 2" by code_simp
  have d: "shifted_component_ids 0 two_channels = [0, 0, 1, 1]" by code_simp
  from C3_fold_component_ids [OF a b] show ?thesis
    unfolding c d using a b by auto
qed

text \<open>The fitter \<open>fit_two_then_one\<close> puts the first two of three spikes on one component
  and the third on a component of its own; any other number of spikes it puts on a single
  component.\<close>

definition fit_two_then_one :: "nat fitter" where
  "fit_two_then_one scores msk grp =
     (if length scores = 3 then
        \<lparr>muhat = [[Fin 0], [Fin 5]], Vhat = [[[Fin 1]], [[Fin 1]]],
         invVhat = [[[Fin 1]], [[Fin 1]]], nuhat = [Fin 1, Fin 1],
         lambdahat = [Fin 1, Fin 1], ahat = [Fin 1, Fin 1],
         rhat = [[Fin 1, Fin 0], [Fin 1, Fin 0], [Fin 0, Fin 1]]\<rparr>
      else fit_single scores msk grp)"

text \<open>
  C10, as stated, fails. Channel \<open>0\<close> has three spikes, channel \<open>1\<close> two, and
  \<^verbatim>\<open>min_spikes\<close> is \<open>1\<close>. After the floor and the normalization every spike of both
  channels keeps an entry above \<open>0.1\<close> (the first two conjuncts). On channel \<open>0\<close> the
  second component has mass \<open>1\<close>, not above \<^verbatim>\<open>min_spikes\<close>: \<^verbatim>\<open>clean_empty_cluster\<close>
  deletes it, and with it the only column in which the third spike had an entry. The
  matrix that is folded has no triplet for that spike, the largest spike id present is
  \<open>1\<close>, and the fold of channel \<open>1\<close> shifts its spike ids by \<open>2\<close>, not by \<open>3\<close>: the
  triplets of the spikes with scores \<open>4\<close> and \<open>5\<close> carry the ids \<open>2\<close> and \<open>3\<close>, where
  \<^verbatim>\<open>global_score\<close> and \<^verbatim>\<open>global_spike_index\<close> hold the third spike of channel \<open>0\<close>
  and the first spike of channel \<open>1\<close>.
\<close>

theorem C10_pruned_spike_counterexample:
  "list_all (list_ex (\<lambda>x. flt (Fin (1 / 10)) x))
     (sparsify_rhat (rhat (fit_two_then_one [1, 2, 3] (replicate 3 [Fin 1]) [0, 1, 2])))
   \<and> list_all (list_ex (\<lambda>x. flt (Fin (1 / 10)) x))
     (sparsify_rhat (rhat (fit_two_then_one [4, 5] (replicate 2 [Fin 1]) [0, 1])))
   \<and> map_sum id (map_option (\<lambda>G. (global_score G, global_spike_index G, rhat (global_vbParam G),
         spikes_of_triplets (global_score G) (global_spike_index G) (rhat (global_vbParam G)))))
       (run_cluster_location fit_two_then_one [1, 2, 3, 4, 5]
          [(10, 0), (20, 0), (30, 0), (40, 1), (50, 1)] 1)
     = Inr (Some ([1, 2, 3, 4, 5],
                  [(10, 0), (20, 0), (30, 0), (40, 1), (50, 1)],
                  [(0, 0, Fin 1), (1, 0, Fin 1), (2, 1, Fin 1), (3, 1, Fin 1)],
                  [(1, (10, 0), Fin 1), (2, (20, 0), Fin 1), (3, (30, 0), Fin 1),
                   (4, (40, 1), Fin 1)]))"
  by code_simp

text \<open>
  C10, amended: the condition is on the matrix that is folded, the one left after
  \<^verbatim>\<open>clean_empty_cluster\<close> has deleted the components of mass at most \<^verbatim>\<open>min_spikes\<close>.
  When every spike of every previously folded channel has an entry above zero in that
  matrix (and each channel's arrays agree in their row counts), the fold of one more
  channel returns a collection in which the scores and the spike references are the
  concatenations of the channels', have the same row count, every triplet's spike id is
  a row index into both, and the feature vector and spike reference found at that index
  are those the triplet had in its own channel.
\<close>

theorem C10_fold_rows_aligned:
  assumes "list_all every_spike_assigned prev"
    and "list_all shapes_agree prev"
    and "shapes_agree (v, c, sc, si)"
  shows "\<exists>G. fold_channels None (prev @ [(v, c, sc, si)]) = Inr (Some G)
     \<and> global_score G = concat (map (\<lambda>p. fst (snd (snd p))) (prev @ [(v, c, sc, si)]))
     \<and> global_spike_index G = concat (map (\<lambda>p. snd (snd (snd p))) (prev @ [(v, c, sc, si)]))
     \<and> length (global_spike_index G) = length (global_score G)
     \<and> list_all (\<lambda>t. fst t < length (global_score G)) (rhat (global_vbParam G))
     \<and> spikes_of_triplets (global_score G) (global_spike_index G) (rhat (global_vbParam G))
         = concat (map (\<lambda>p. spikes_of_triplets (fst (snd (snd p))) (snd (snd (snd p)))
                                (np_where_pos (rhat (fst p)))) (prev @ [(v, c, sc, si)]))"
proof -
  from fold_rows_aligned [OF assms] obtain G where
    "fold_channels None (prev @ [(v, c, sc, si)]) = Inr (Some G)"
    "rows_aligned (prev @ [(v, c, sc, si)]) G" by blast
  then show ?thesis unfolding rows_aligned_def by blast
qed

theorem C10_fold_rows_aligned_witness:
  "list_all every_spike_assigned [(v_single, 0, [1, 2::nat], [(10, 0), (20, 0)])]
   \<and> list_all shapes_agree [(v_single, 0, [1, 2::nat], [(10, 0), (20, 0)])]
   \<and> shapes_agree (v_single, 1, [3, 4::nat], [(30, 1), (40, 1)])
   \<and> (\<exists>G. fold_channels None two_channels = Inr (Some G)
        \<and> global_score G = [1, 2, 3, 4]
        \<and> global_spike_index G = [(10, 0), (20, 0), (30, 1), (40, 1)]
        \<and> list_all (\<lambda>t. fst t < length (global_score G)) (rhat (global_vbParam G))
        \<and> spikes_of_triplets (global_score G) (global_spike_index G) (rhat (global_vbParam G))
            = [(1, (10, 0), Fin 1), (2, (20, 0), Fin 1), (3, (30, 1), Fin 1), (4, (40, 1), Fin 1)])"
proof -
  have a: "list_all every_spike_assigned [(v_single, 0, [1, 2::nat], [(10, 0), (20, 0)])]"
    by code_simp
  have b: "list_all shapes_agree [(v_single, 0, [1, 2::nat], [(10, 0), (20, 0)])]"
    by code_simp
  have c: "shapes_agree (v_single, 1, [3, 4::nat], [(30, 1), (40, 1)])"
    by code_simp
  have eq: "[(v_single, 0, [1, 2::nat], [(10, 0), (20, 0)])] @ [(v_single, 1, [3, 4], [(30, 1), (40, 1)])]
      = two_channels" by (simp add: two_channels_def)
  have d: "concat (map (\<lambda>p. fst (snd (snd p))) two_channels) = [1, 2, 3, 4]" by code_simp
  have e: "concat (map (\<lambda>p. snd (snd (snd p))) two_channels)
      = [(10, 0), (20, 0), (30, 1), (40, 1)]" by code_simp
  have f: "concat (map (\<lambda>p. spikes_of_triplets (fst (snd (snd p))) (snd (snd (snd p)))
                                (np_where_pos (rhat (fst p)))) two_channels)
      = [(1, (10, 0), Fin 1), (2, (20, 0), Fin 1), (3, (30, 1), Fin 1), (4, (40, 1), Fin 1)]"
    by code_simp
  from C10_fold_rows_aligned [OF a b c, unfolded eq d e f] a b c show ?thesis
    by blast
qed


section \<open>Termination of the merge loop\<close>

lemma delete_and_set_length:
  "delete_and_set xs kb ka loc = Inr ys \<Longrightarrow> Suc (length ys) = length xs \<and> kb < length xs"
  by (auto simp: delete_and_set_def np_delete_def set_item_def item_def ebind_Inr_iff
      split: if_splits)

lemma merge_accept_decreases:
  assumes "merge_accept s lv = Inr s'"
  shows "length (muhat (st_vbParam s')) < length (muhat (st_vbParam s))"
proof -
  from assms obtain mu where
    mu: "delete_and_set (muhat (st_vbParam s)) (max (st_cluster s) (last (st_neigh_clusters s)))
           (min (st_cluster s) (last (st_neigh_clusters s))) (muhat lv) = Inr mu"
    and s': "muhat (st_vbParam s') = mu"
    unfolding merge_accept_def Let_def ebind_Inr_iff by auto
  from delete_and_set_length [OF mu] s' show ?thesis by simp
qed

lemma merge_reject_pops:
  assumes "merge_reject s = Inr s'"
  shows "st_vbParam s' = st_vbParam s \<and> st_cluster s' = st_cluster s
         \<and> st_neigh_clusters s' = butlast (st_neigh_clusters s)"
  using assms unfolding merge_reject_def Let_def ebind_Inr_iff by auto

definition merge_measure :: "mstate \<Rightarrow> nat \<times> nat" where
  "merge_measure s = (length (muhat (st_vbParam s)), length (st_neigh_clusters s))"

lemma merge_iter_decreases:
  assumes "st_neigh_clusters s \<noteq> []" and "merge_iter check_merge scores s = Inr s'"
  shows "(merge_measure s', merge_measure s) \<in> less_than <*lex*> less_than"
proof -
  from assms(2) obtain lv merged where
    br: "(if merged then merge_accept s lv else merge_reject s) = Inr s'"
    unfolding merge_iter_def by (auto simp: ebind_Inr_iff split: prod.splits)
  show ?thesis
  proof (cases merged)
    case True
    with br merge_accept_decreases show ?thesis by (auto simp: merge_measure_def)
  next
    case False
    with br have "merge_reject s = Inr s'" by simp
    from merge_reject_pops [OF this] assms(1) show ?thesis
      by (auto simp: merge_measure_def)
  qed
qed

lemma merge_loop_terminates:
  "\<exists>r. merge_loop check_merge scores s = Some r
       \<and> (case r of Inl e \<Rightarrow> True | Inr s' \<Rightarrow> st_neigh_clusters s' = [])"
proof (induction s rule: wf_induct_rule [OF wf_inv_image [OF wf_lex_prod [OF wf_less_than wf_less_than]], of merge_measure])
  case (1 s)
  show ?case
  proof (cases "st_neigh_clusters s = []")
    case True
    then show ?thesis by (subst merge_loop.simps) simp
  next
    case False
    show ?thesis
    proof (cases "merge_iter check_merge scores s")
      case (Inl e)
      with False show ?thesis by (subst merge_loop.simps) simp
    next
      case (Inr s')
      from merge_iter_decreases [OF False Inr]
      have "(s', s) \<in> inv_image (less_than <*lex*> less_than) merge_measure"
        by (simp add: inv_image_def)
      from 1 [OF this] Inr False show ?thesis
        by (subst merge_loop.simps) simp
    qed
  qed
qed

text \<open>An example: three components on one feature, means \<open>0\<close>, \<open>1\<close> and \<open>3\<close>, one spike
  each; the matrix \<open>three_maha\<close> holds the squared differences of the means, with \<open>+inf\<close> on
  the diagonal. The merge test \<open>near_only\<close> accepts the pair of means \<open>0\<close> and \<open>1\<close> and
  rejects every other pair.\<close>

definition three_comp :: "dense vbPar" where
  "three_comp = \<lparr>muhat = [[Fin 0], [Fin 1], [Fin 3]], Vhat = [[[Fin 1]], [[Fin 1]], [[Fin 1]]],
      invVhat = [[[Fin 1]], [[Fin 1]], [[Fin 1]]], nuhat = [Fin 1, Fin 1, Fin 1],
      lambdahat = [Fin 1, Fin 1, Fin 1], ahat = [Fin 1, Fin 1, Fin 1],
      rhat = [[Fin 1, Fin 0, Fin 0], [Fin 0, Fin 1, Fin 0], [Fin 0, Fin 0, Fin 1]]\<rparr>"

definition merged_comp :: "dense vbPar" where
  "merged_comp = \<lparr>muhat = [[Fin (1/2)]], Vhat = [[[Fin 1]]], invVhat = [[[Fin 1]]],
      nuhat = [Fin 2], lambdahat = [Fin 2], ahat = [Fin 2], rhat = [[Fin 1], [Fin 1]]\<rparr>"

definition near_only :: "nat merge_test" where
  "near_only local_scores lv =
     (if muhat lv = [[Fin 0], [Fin 1]] then Inr (merged_comp, True) else Inr (lv, False))"

definition three_maha :: "fl list list" where
  "three_maha = [[PInf, Fin 1, Fin 9], [Fin 1, PInf, Fin 4], [Fin 9, Fin 4, PInf]]"

definition s0 :: mstate where
  "s0 = \<lparr>st_cluster = 0, st_neigh_clusters = [1, 2], st_vbParam = three_comp, st_maha = three_maha\<rparr>"

lemma set_entry_sets:
  assumes "set_entry M a b x = Inr M'"
  shows "M' ! a ! b = x" and "length M' = length M"
    and "\<And>i. length (M' ! i) = length (M ! i)"
    and "\<And>i j. (i, j) \<noteq> (a, b) \<Longrightarrow> M' ! i ! j = M ! i ! j"
proof -
  from assms have a: "a < length M" and b: "b < length (M ! a)"
    and M': "M' = M[a := (M ! a)[b := x]]"
    by (auto simp: set_entry_def split: if_splits)
  show "M' ! a ! b = x" using a b by (simp add: M')
  show "length M' = length M" by (simp add: M')
  show "length (M' ! i) = length (M ! i)" for i
    using a by (cases "i = a") (simp_all add: M')
  show "M' ! i ! j = M ! i ! j" if "(i, j) \<noteq> (a, b)" for i j
    using that a by (cases "i = a"; cases "j = b") (simp_all add: M')
qed

lemma merge_reject_entries:
  assumes "merge_reject s = Inr s'"
  shows "st_maha s' ! min (st_cluster s) (last (st_neigh_clusters s))
                    ! max (st_cluster s) (last (st_neigh_clusters s)) = PInf"
    and "st_maha s' ! max (st_cluster s) (last (st_neigh_clusters s))
                    ! min (st_cluster s) (last (st_neigh_clusters s)) = PInf"
    and "\<And>i j. st_maha s ! i ! j = PInf \<Longrightarrow> st_maha s' ! i ! j = PInf"
    and "length (st_maha s') = length (st_maha s)"
    and "\<And>i. length (st_maha s' ! i) = length (st_maha s ! i)"
proof -
  let ?ka = "min (st_cluster s) (last (st_neigh_clusters s))"
  let ?kb = "max (st_cluster s) (last (st_neigh_clusters s))"
  from assms obtain M1 where M1: "set_entry (st_maha s) ?ka ?kb PInf = Inr M1"
    and M2: "set_entry M1 ?kb ?ka PInf = Inr (st_maha s')"
    unfolding merge_reject_def Let_def ebind_Inr_iff by auto
  show "st_maha s' ! ?kb ! ?ka = PInf" by (rule set_entry_sets(1) [OF M2])
  show "st_maha s' ! ?ka ! ?kb = PInf"
  proof (cases "?ka = ?kb")
    case True
    with set_entry_sets(1) [OF M2] show ?thesis by simp
  next
    case False
    then have "(?ka, ?kb) \<noteq> (?kb, ?ka)" by simp
    from set_entry_sets(4) [OF M2 this] set_entry_sets(1) [OF M1] show ?thesis by simp
  qed
  show "st_maha s' ! i ! j = PInf" if old: "st_maha s ! i ! j = PInf" for i j
  proof -
    have 1: "M1 ! i ! j = PInf"
    proof (cases "(i, j) = (?ka, ?kb)")
      case True
      with set_entry_sets(1) [OF M1] show ?thesis by simp
    next
      case False
      from set_entry_sets(4) [OF M1 False] old show ?thesis by simp
    qed
    show ?thesis
    proof (cases "(i, j) = (?kb, ?ka)")
      case True
      with set_entry_sets(1) [OF M2] show ?thesis by simp
    next
      case False
      from set_entry_sets(4) [OF M2 False] 1 show ?thesis by simp
    qed
  qed
  show "length (st_maha s') = length (st_maha s)"
    using set_entry_sets(2) [OF M1] set_entry_sets(2) [OF M2] by simp
  show "length (st_maha s' ! i) = length (st_maha s ! i)" for i
    using set_entry_sets(3) [OF M1] set_entry_sets(3) [OF M2] by simp
qed

lemma merge_iter_cases:
  assumes "merge_iter check_merge scores s = Inr s'"
  obtains lv where "merge_accept s lv = Inr s'" | "merge_reject s = Inr s'"
proof -
  from assms obtain lv merged where
    "(if merged then merge_accept s lv else merge_reject s) = Inr s'"
    unfolding merge_iter_def by (auto simp: ebind_Inr_iff split: prod.splits)
  then show ?thesis using that by (cases merged) auto
qed

text \<open>
  C7, amended: for every merge test, every score array and every state of the loop, the
  loop of \<^verbatim>\<open>merge_move_patches\<close> returns: with an exception, or with the queue empty. A
  pass that returns either accepted (one component less) or rejected (the state of the
  components unchanged, the queue one candidate shorter, both directional distances of
  the pair \<open>+inf\<close> in the state that the pass returns). The distances of a rejected pair
  do not stay \<open>+inf\<close>: an accepted merge recomputes them, and the pair may be queued and
  tested again; the loop returns all the same, since every such pass follows a merge,
  which leaves one component less.
\<close>

theorem C7_merge_loop_terminates:
  "(\<exists>r. merge_loop check_merge scores s = Some r
        \<and> (case r of Inl e \<Rightarrow> True | Inr s' \<Rightarrow> st_neigh_clusters s' = []))
   \<and> (st_neigh_clusters s \<noteq> [] \<and> merge_iter check_merge scores s = Inr s' \<longrightarrow>
        length (muhat (st_vbParam s')) < length (muhat (st_vbParam s))
        \<or> (st_vbParam s' = st_vbParam s
            \<and> length (st_neigh_clusters s') < length (st_neigh_clusters s)
            \<and> st_maha s' ! min (st_cluster s) (last (st_neigh_clusters s))
                          ! max (st_cluster s) (last (st_neigh_clusters s)) = PInf
            \<and> st_maha s' ! max (st_cluster s) (last (st_neigh_clusters s))
                          ! min (st_cluster s) (last (st_neigh_clusters s)) = PInf))"
proof (intro conjI impI)
  show "\<exists>r. merge_loop check_merge scores s = Some r
        \<and> (case r of Inl e \<Rightarrow> True | Inr s' \<Rightarrow> st_neigh_clusters s' = [])"
    by (rule merge_loop_terminates)
next
  assume a: "st_neigh_clusters s \<noteq> [] \<and> merge_iter check_merge scores s = Inr s'"
  then have it: "merge_iter check_merge scores s = Inr s'" and ne: "st_neigh_clusters s \<noteq> []"
    by simp_all
  from it show "length (muhat (st_vbParam s')) < length (muhat (st_vbParam s))
        \<or> (st_vbParam s' = st_vbParam s
            \<and> length (st_neigh_clusters s') < length (st_neigh_clusters s)
            \<and> st_maha s' ! min (st_cluster s) (last (st_neigh_clusters s))
                          ! max (st_cluster s) (last (st_neigh_clusters s)) = PInf
            \<and> st_maha s' ! max (st_cluster s) (last (st_neigh_clusters s))
                          ! min (st_cluster s) (last (st_neigh_clusters s)) = PInf)"
  proof (cases rule: merge_iter_cases)
    case (1 lv)
    then show ?thesis using merge_accept_decreases by blast
  next
    case 2
    from merge_reject_pops [OF 2] ne
    have "st_vbParam s' = st_vbParam s"
      "length (st_neigh_clusters s') < length (st_neigh_clusters s)" by simp_all
    with merge_reject_entries(1,2) [OF 2] show ?thesis by blast
  qed
qed

definition s1 :: mstate where
  "s1 = \<lparr>st_cluster = 0, st_neigh_clusters = [1], st_vbParam = three_comp,
      st_maha = [[PInf, Fin 1, PInf], [Fin 1, PInf, Fin 4], [PInf, Fin 4, PInf]]\<rparr>"

lemma s0_rejects: "merge_iter near_only [0, 1, 2] s0 = Inr s1"
  by code_simp

theorem C7_merge_loop_terminates_witness:
  "st_neigh_clusters s0 \<noteq> [] \<and> merge_iter near_only [0, 1, 2] s0 = Inr s1
   \<and> (\<exists>r. merge_loop near_only [0, 1, 2] s0 = Some r)
   \<and> st_vbParam s1 = st_vbParam s0
   \<and> length (st_neigh_clusters s1) < length (st_neigh_clusters s0)
   \<and> st_maha s1 ! 0 ! 2 = PInf \<and> st_maha s1 ! 2 ! 0 = PInf"
proof -
  have a: "st_neigh_clusters s0 \<noteq> []" by (simp add: s0_def)
  have b: "length (muhat (st_vbParam s1)) = length (muhat (st_vbParam s0))"
    by (simp add: s0_def s1_def)
  have c: "min (st_cluster s0) (last (st_neigh_clusters s0)) = 0"
    "max (st_cluster s0) (last (st_neigh_clusters s0)) = 2" by (simp_all add: s0_def)
  from C7_merge_loop_terminates [of near_only "[0, 1, 2]" s0 s1] a s0_rejects b
  show ?thesis unfolding c by auto
qed

section \<open>A failing or malformed merge test\<close>

text \<open>The local problem of the first pass on \<open>s0\<close> is the pair of means \<open>0\<close> and
  \<open>3\<close>. \<open>fail_on_far\<close> raises on that pair; \<open>nan_on_far\<close> returns for it an accepted state of
  \<open>NaN\<close>; both accept every other pair.\<close>

definition pair_far :: "dense vbPar" where
  "pair_far = \<lparr>muhat = [[Fin 0], [Fin 3]], Vhat = [[[Fin 1]], [[Fin 1]]],
      invVhat = [[[Fin 1]], [[Fin 1]]], nuhat = [Fin 1, Fin 1],
      lambdahat = [Fin 1, Fin 1], ahat = [Fin 1, Fin 1], rhat = [[Fin 1, Fin 0], [Fin 0, Fin 1]]\<rparr>"

definition fail_on_far :: "nat merge_test" where
  "fail_on_far local_scores lv =
     (if muhat lv = [[Fin 0], [Fin 3]] then Inl CollaboratorError else Inr (merged_comp, True))"

definition nan_comp :: "dense vbPar" where
  "nan_comp = \<lparr>muhat = [[NaN]], Vhat = [[[NaN]]], invVhat = [[[NaN]]],
      nuhat = [NaN], lambdahat = [NaN], ahat = [NaN], rhat = [[Fin 1], [Fin 1]]\<rparr>"

definition nan_on_far :: "nat merge_test" where
  "nan_on_far local_scores lv =
     (if muhat lv = [[Fin 0], [Fin 3]] then Inr (nan_comp, True) else Inr (merged_comp, True))"

lemma local_s0: "local_problem [0, 1, 2::nat] s0 = Inr ([0, 2], pair_far)"
  by code_simp

text \<open>
  C6, as stated, fails. \<^verbatim>\<open>merge_move_patches\<close> has no \<^verbatim>\<open>try\<close>: the exception of the merge
  test on the pair \<open>(0, 2)\<close> ends the whole loop, with the candidate \<open>1\<close> still queued
  and no distance marked. And an accepted state of \<open>NaN\<close> is written into the arrays as it
  is: no test of finiteness stands between \<^verbatim>\<open>check_merge\<close> and the update.
\<close>

theorem C6_failure_counterexample:
  "local_problem [0, 1, 2::nat] s0 = Inr ([0, 2], pair_far)
   \<and> fail_on_far [0, 2] pair_far = Inl CollaboratorError
   \<and> st_neigh_clusters s0 = [1, 2]
   \<and> merge_loop fail_on_far [0, 1, 2] s0 = Some (Inl CollaboratorError)
   \<and> nan_on_far [0, 2] pair_far = Inr (nan_comp, True)
   \<and> map_sum id (\<lambda>s. (muhat (st_vbParam s), st_maha s, st_neigh_clusters s))
        (merge_iter nan_on_far [0, 1, 2] s0)
      = Inr ([[NaN], [Fin 1]], [[PInf, NaN], [NaN, PInf]], [])"
  by code_simp

text \<open>
  C6, amended: when the merge test raises on a candidate pair, \<^verbatim>\<open>merge_move_patches\<close>
  raises the same exception; when it returns an accepted state, the accepting branch
  runs on that state as returned; when it returns a rejection, both directional distances
  of the pair are set to \<open>+inf\<close>, the candidate leaves the queue, the anchor and the
  components are unchanged, and the loop goes on with the remaining candidates.
\<close>

theorem C6_reject_or_raise:
  assumes ne: "st_neigh_clusters s \<noteq> []"
    and lp: "local_problem scores s = Inr (ls, lv)"
  shows "(check_merge ls lv = Inl e \<longrightarrow> merge_loop check_merge scores s = Some (Inl e))
     \<and> (check_merge ls lv = Inr (lv', True) \<longrightarrow>
          merge_iter check_merge scores s = merge_accept s lv')
     \<and> (check_merge ls lv = Inr (lv', False) \<and> merge_reject s = Inr s' \<longrightarrow>
          merge_iter check_merge scores s = Inr s'
          \<and> st_maha s' ! min (st_cluster s) (last (st_neigh_clusters s))
                        ! max (st_cluster s) (last (st_neigh_clusters s)) = PInf
          \<and> st_maha s' ! max (st_cluster s) (last (st_neigh_clusters s))
                        ! min (st_cluster s) (last (st_neigh_clusters s)) = PInf
          \<and> st_neigh_clusters s' = butlast (st_neigh_clusters s)
          \<and> st_cluster s' = st_cluster s \<and> st_vbParam s' = st_vbParam s
          \<and> merge_loop check_merge scores s = merge_loop check_merge scores s')"
proof (intro conjI impI)
  assume "check_merge ls lv = Inl e"
  then have "merge_iter check_merge scores s = Inl e"
    by (simp add: merge_iter_def lp)
  with ne show "merge_loop check_merge scores s = Some (Inl e)"
    by (subst merge_loop.simps) simp
next
  assume "check_merge ls lv = Inr (lv', True)"
  then show "merge_iter check_merge scores s = merge_accept s lv'"
    by (simp add: merge_iter_def lp)
next
  assume a: "check_merge ls lv = Inr (lv', False) \<and> merge_reject s = Inr s'"
  then have it: "merge_iter check_merge scores s = Inr s'"
    by (simp add: merge_iter_def lp)
  from a have rj: "merge_reject s = Inr s'" by simp
  show "merge_iter check_merge scores s = Inr s'" by (rule it)
  show "st_maha s' ! min (st_cluster s) (last (st_neigh_clusters s))
                        ! max (st_cluster s) (last (st_neigh_clusters s)) = PInf"
    by (rule merge_reject_entries(1) [OF rj])
  show "st_maha s' ! max (st_cluster s) (last (st_neigh_clusters s))
                        ! min (st_cluster s) (last (st_neigh_clusters s)) = PInf"
    by (rule merge_reject_entries(2) [OF rj])
  from merge_reject_pops [OF rj]
  show "st_neigh_clusters s' = butlast (st_neigh_clusters s)"
    "st_cluster s' = st_cluster s" "st_vbParam s' = st_vbParam s" by simp_all
  show "merge_loop check_merge scores s = merge_loop check_merge scores s'"
    using ne it by (subst merge_loop.simps) simp
qed

theorem C6_reject_or_raise_witness:
  "st_neigh_clusters s0 \<noteq> []
   \<and> local_problem [0, 1, 2::nat] s0 = Inr ([0, 2], pair_far)
   \<and> near_only [0, 2] pair_far = Inr (pair_far, False)
   \<and> merge_reject s0 = Inr s1
   \<and> merge_iter near_only [0, 1, 2] s0 = Inr s1
   \<and> st_maha s1 ! 0 ! 2 = PInf \<and> st_maha s1 ! 2 ! 0 = PInf
   \<and> st_neigh_clusters s1 = [1]
   \<and> merge_loop near_only [0, 1, 2] s0 = merge_loop near_only [0, 1, 2] s1"
proof -
  have a: "st_neigh_clusters s0 \<noteq> []" by (simp add: s0_def)
  have b: "near_only [0, 2] pair_far = Inr (pair_far, False)" by code_simp
  have c: "merge_reject s0 = Inr s1" by code_simp
  have d: "min (st_cluster s0) (last (st_neigh_clusters s0)) = 0"
    "max (st_cluster s0) (last (st_neigh_clusters s0)) = 2"
    "butlast (st_neigh_clusters s0) = [1]" by (simp_all add: s0_def)
  from C6_reject_or_raise [OF a local_s0, of near_only _ pair_far s1] a local_s0 b c
  show ?thesis unfolding d by simp
qed

section \<open>An accepted merge\<close>

text \<open>\<open>merged_into xs ys ka kb m\<close>: the array \<open>ys\<close> is \<open>xs\<close> without its entry \<open>kb\<close>
  and with \<open>m\<close> at index \<open>ka\<close>; the entries above \<open>kb\<close> have moved down by one.\<close>

definition merged_into :: "'a list \<Rightarrow> 'a list \<Rightarrow> nat \<Rightarrow> nat \<Rightarrow> 'a \<Rightarrow> bool" where
  "merged_into xs ys ka kb m \<longleftrightarrow>
     Suc (length ys) = length xs
     \<and> ys = map (\<lambda>j. if j = ka then m else if j < kb then xs ! j else xs ! Suc j) [0..<length ys]"

lemma nth_delete:
  assumes "k < length xs" and "Suc j < length xs"
  shows "(take k xs @ drop (Suc k) xs) ! j = (if j < k then xs ! j else xs ! Suc j)"
  using assms by (auto simp: nth_append min_def)

lemma length_delete: "k < length xs \<Longrightarrow> Suc (length (take k xs @ drop (Suc k) xs)) = length xs"
  by auto

lemma delete_and_set_merged:
  assumes "delete_and_set xs kb ka loc = Inr ys" and "ka < kb"
  shows "merged_into xs ys ka kb (loc ! 0)"
proof -
  let ?d = "take kb xs @ drop (Suc kb) xs"
  from assms(1) have kb: "kb < length xs" and ys: "ys = ?d[ka := loc ! 0]"
    by (auto simp: delete_and_set_def np_delete_def set_item_def item_def ebind_Inr_iff
        split: if_splits)
  have len: "Suc (length ys) = length xs" using kb by (simp add: ys)
  have "ys = map (\<lambda>j. if j = ka then loc ! 0 else if j < kb then xs ! j else xs ! Suc j)
                  [0..<length ys]"
  proof (rule nth_equalityI)
    show "length ys = length (map (\<lambda>j. if j = ka then loc ! 0 else if j < kb then xs ! j
            else xs ! Suc j) [0..<length ys])" by simp
  next
    fix j assume j: "j < length ys"
    then have sj: "Suc j < length xs" using len by simp
    have jd: "j < length ?d" using j by (simp add: ys)
    show "ys ! j = map (\<lambda>j. if j = ka then loc ! 0 else if j < kb then xs ! j else xs ! Suc j)
                  [0..<length ys] ! j"
    proof (cases "j = ka")
      case True
      with jd j show ?thesis by (simp add: ys)
    next
      case False
      then have "ys ! j = ?d ! j" by (simp add: ys)
      with nth_delete [OF kb sj] False j show ?thesis by simp
    qed
  qed
  with len show ?thesis by (simp add: merged_into_def)
qed

lemma fadd_commute: "fadd a b = fadd b a"
  by (cases a; cases b) simp_all

lemma fadd_assoc: "fadd (fadd a b) c = fadd a (fadd b c)"
  by (cases a; cases b; cases c) simp_all

lemma fadd_left_commute: "fadd a (fadd b c) = fadd b (fadd a c)"
  by (cases a; cases b; cases c) simp_all

lemma fsum_add:
  "fsum (map (\<lambda>r. fadd (f r) (g r)) R) = fadd (fsum (map f R)) (fsum (map g R))"
proof (induction R)
  case Nil
  then show ?case by (simp add: fsum_def)
next
  case (Cons r R)
  have "fsum (map (\<lambda>r. fadd (f r) (g r)) (r # R))
        = fadd (fadd (f r) (g r)) (fsum (map (\<lambda>r. fadd (f r) (g r)) R))"
    by (simp add: fsum_def)
  also have "\<dots> = fadd (fadd (f r) (g r)) (fadd (fsum (map f R)) (fsum (map g R)))"
    by (simp only: Cons.IH)
  also have "\<dots> = fadd (fadd (f r) (fsum (map f R))) (fadd (g r) (fsum (map g R)))"
    by (simp only: fadd_assoc fadd_left_commute [of "g r"])
  also have "\<dots> = fadd (fsum (map f (r # R))) (fsum (map g (r # R)))"
    by (simp add: fsum_def)
  finally show ?case .
qed

lemma map_zip_same:
  "map (\<lambda>(x, y). h x y) (zip (map f R) (map g R)) = map (\<lambda>r. h (f r) (g r)) R"
  by (induction R) simp_all

lemma merge_rhat_columns:
  assumes m: "merge_rhat R ka kb = Inr R'" and lt: "ka < kb"
    and rect: "list_all (\<lambda>row. length row = ncols R) R"
  shows "length R' = length R"
    and "list_all (\<lambda>row. Suc (length row) = ncols R) R'"
    and "column R' ka = map (\<lambda>(x, y). fadd x y) (zip (column R ka) (column R kb))"
    and "\<And>j. Suc j < ncols R \<Longrightarrow> j \<noteq> ka \<Longrightarrow>
           column R' j = column R (if j < kb then j else Suc j)"
    and "fsum (column R' ka) = fadd (fsum (column R ka)) (fsum (column R kb))"
proof -
  let ?upd = "\<lambda>row. row[ka := fadd (row ! ka) (row ! kb)]"
  let ?f = "\<lambda>row. take kb (?upd row) @ drop (Suc kb) (?upd row)"
  from m have kb: "kb < ncols R" and R': "R' = map ?f R"
    by (auto simp: merge_rhat_def Let_def split: if_splits)
  from rect have rows: "\<And>row. row \<in> set R \<Longrightarrow> length row = ncols R"
    by (simp add: list_all_iff)
  show "length R' = length R" by (simp add: R')
  show "list_all (\<lambda>row. Suc (length row) = ncols R) R'"
    using rows kb by (auto simp: R' list_all_iff)
  have entry: "?f row ! j = (if j = ka then fadd (row ! ka) (row ! kb)
                            else if j < kb then row ! j else row ! Suc j)"
    if "row \<in> set R" and "Suc j < ncols R" for row j
  proof -
    from that rows have l: "kb < length (?upd row)" "Suc j < length (?upd row)"
      using kb by simp_all
    from nth_delete [OF l] that rows lt kb show ?thesis by auto
  qed
  have ka: "Suc ka < ncols R" using lt kb by simp
  have colka: "column R' ka = map (\<lambda>row. fadd (row ! ka) (row ! kb)) R"
    using entry [OF _ ka] by (simp add: column_def R')
  then show "column R' ka = map (\<lambda>(x, y). fadd x y) (zip (column R ka) (column R kb))"
    by (simp only: column_def map_zip_same)
  show "column R' j = column R (if j < kb then j else Suc j)"
    if "Suc j < ncols R" "j \<noteq> ka" for j
    using entry [OF _ that(1)] that(2) by (simp add: column_def R')
  show "fsum (column R' ka) = fadd (fsum (column R ka)) (fsum (column R kb))"
    unfolding colka by (simp add: column_def fsum_add)
qed

lemma ncols_rect:
  assumes "list_all (\<lambda>row. Suc (length row) = n) R'" and "R' \<noteq> []"
  shows "Suc (ncols R') = n"
  using assms by (cases R') (simp_all add: ncols_def)

text \<open>
  C2: when the accepting branch returns, for a pair of distinct components
  \<open>ka = min\<close>, \<open>kb = max\<close>: each of \<^verbatim>\<open>muhat\<close>, \<^verbatim>\<open>Vhat\<close>, \<^verbatim>\<open>invVhat\<close>, \<^verbatim>\<open>nuhat\<close>,
  \<^verbatim>\<open>lambdahat\<close>, \<^verbatim>\<open>ahat\<close> has lost exactly its entry \<open>kb\<close> and holds the merged
  parameters (component \<open>0\<close> of the returned local state) at \<open>ka\<close>; the component count
  and the column count of \<^verbatim>\<open>rhat\<close> have gone down by one; column \<open>ka\<close> of \<^verbatim>\<open>rhat\<close> is the
  elementwise sum of the former columns \<open>ka\<close> and \<open>kb\<close>, the other columns are the former
  ones without \<open>kb\<close>; and the mass of the surviving component is the sum of the two
  masses (the sums are exact here, rounding not being modelled).
\<close>

theorem C2_merge_accept:
  assumes acc: "merge_accept s lv = Inr s'"
    and distinct: "st_cluster s \<noteq> last (st_neigh_clusters s)"
    and rect: "list_all (\<lambda>row. length row = ncols (rhat (st_vbParam s))) (rhat (st_vbParam s))"
    and ka: "ka = min (st_cluster s) (last (st_neigh_clusters s))"
    and kb: "kb = max (st_cluster s) (last (st_neigh_clusters s))"
  shows "merged_into (muhat (st_vbParam s)) (muhat (st_vbParam s')) ka kb (muhat lv ! 0)
     \<and> merged_into (Vhat (st_vbParam s)) (Vhat (st_vbParam s')) ka kb (Vhat lv ! 0)
     \<and> merged_into (invVhat (st_vbParam s)) (invVhat (st_vbParam s')) ka kb (invVhat lv ! 0)
     \<and> merged_into (nuhat (st_vbParam s)) (nuhat (st_vbParam s')) ka kb (nuhat lv ! 0)
     \<and> merged_into (lambdahat (st_vbParam s)) (lambdahat (st_vbParam s')) ka kb (lambdahat lv ! 0)
     \<and> merged_into (ahat (st_vbParam s)) (ahat (st_vbParam s')) ka kb (ahat lv ! 0)
     \<and> Suc (length (muhat (st_vbParam s'))) = length (muhat (st_vbParam s))
     \<and> Suc (ncols (rhat (st_vbParam s'))) = ncols (rhat (st_vbParam s))
     \<and> column (rhat (st_vbParam s')) ka
         = map (\<lambda>(x, y). fadd x y)
             (zip (column (rhat (st_vbParam s)) ka) (column (rhat (st_vbParam s)) kb))
     \<and> (\<forall>j. Suc j < ncols (rhat (st_vbParam s)) \<and> j \<noteq> ka \<longrightarrow>
           column (rhat (st_vbParam s')) j
             = column (rhat (st_vbParam s)) (if j < kb then j else Suc j))
     \<and> fsum (column (rhat (st_vbParam s')) ka)
         = fadd (fsum (column (rhat (st_vbParam s)) ka)) (fsum (column (rhat (st_vbParam s)) kb))
     \<and> st_cluster s' = ka"
proof -
  let ?v = "st_vbParam s" and ?v' = "st_vbParam s'"
  from distinct ka kb have lt: "ka < kb" by (simp add: min_def max_def)
  from acc obtain mu V iV nu la a R where
    1: "delete_and_set (muhat ?v) kb ka (muhat lv) = Inr mu"
    and 2: "delete_and_set (Vhat ?v) kb ka (Vhat lv) = Inr V"
    and 3: "delete_and_set (invVhat ?v) kb ka (invVhat lv) = Inr iV"
    and 4: "delete_and_set (nuhat ?v) kb ka (nuhat lv) = Inr nu"
    and 5: "delete_and_set (lambdahat ?v) kb ka (lambdahat lv) = Inr la"
    and 6: "delete_and_set (ahat ?v) kb ka (ahat lv) = Inr a"
    and 7: "merge_rhat (rhat ?v) ka kb = Inr R"
    and v': "?v' = \<lparr>muhat = mu, Vhat = V, invVhat = iV, nuhat = nu, lambdahat = la, ahat = a,
                rhat = R\<rparr>"
    and c': "st_cluster s' = ka"
    unfolding merge_accept_def Let_def ebind_Inr_iff ka [symmetric] kb [symmetric] by auto
  note m = delete_and_set_merged [OF _ lt]
  from 7 have "kb < ncols (rhat ?v)" by (simp add: merge_rhat_def split: if_splits)
  then have "rhat ?v \<noteq> []" by (auto simp: ncols_def)
  with merge_rhat_columns(1) [OF 7 lt rect] have "R \<noteq> []" by auto
  from ncols_rect [OF merge_rhat_columns(2) [OF 7 lt rect] this]
  have nc: "Suc (ncols R) = ncols (rhat ?v)" .
  have len: "Suc (length mu) = length (muhat ?v)"
    using m [OF 1] by (simp add: merged_into_def)
  show ?thesis
    using m [OF 1] m [OF 2] m [OF 3] m [OF 4] m [OF 5] m [OF 6] len nc c'
      merge_rhat_columns(3) [OF 7 lt rect] merge_rhat_columns(4) [OF 7 lt rect]
      merge_rhat_columns(5) [OF 7 lt rect]
    by (simp add: v')
qed


definition s2 :: mstate where
  "s2 = \<lparr>st_cluster = 0, st_neigh_clusters = [1],
      st_vbParam = \<lparr>muhat = [[Fin (1 / 2)], [Fin 3]], Vhat = [[[Fin 1]], [[Fin 1]]],
        invVhat = [[[Fin 1]], [[Fin 1]]], nuhat = [Fin 2, Fin 1], lambdahat = [Fin 2, Fin 1],
        ahat = [Fin 2, Fin 1], rhat = [[Fin 1, Fin 0], [Fin 1, Fin 0], [Fin 0, Fin 1]]\<rparr>,
      st_maha = [[PInf, Fin (25 / 2)], [Fin (25 / 4), PInf]]\<rparr>"

lemma s1_accepts: "merge_accept s1 merged_comp = Inr s2"
  by code_simp

theorem C2_merge_accept_witness:
  "merge_accept s1 merged_comp = Inr s2
   \<and> st_cluster s1 \<noteq> last (st_neigh_clusters s1)
   \<and> list_all (\<lambda>row. length row = ncols (rhat (st_vbParam s1))) (rhat (st_vbParam s1))
   \<and> merged_into (muhat (st_vbParam s1)) (muhat (st_vbParam s2)) 0 1 (muhat merged_comp ! 0)
   \<and> Suc (length (muhat (st_vbParam s2))) = length (muhat (st_vbParam s1))
   \<and> Suc (ncols (rhat (st_vbParam s2))) = ncols (rhat (st_vbParam s1))
   \<and> column (rhat (st_vbParam s2)) 0
       = map (\<lambda>(x, y). fadd x y)
           (zip (column (rhat (st_vbParam s1)) 0) (column (rhat (st_vbParam s1)) 1))
   \<and> fsum (column (rhat (st_vbParam s2)) 0)
       = fadd (fsum (column (rhat (st_vbParam s1)) 0)) (fsum (column (rhat (st_vbParam s1)) 1))"
proof -
  have a: "st_cluster s1 \<noteq> last (st_neigh_clusters s1)" by (simp add: s1_def)
  have b: "list_all (\<lambda>row. length row = ncols (rhat (st_vbParam s1))) (rhat (st_vbParam s1))"
    by code_simp
  have c: "0 = min (st_cluster s1) (last (st_neigh_clusters s1))" by (simp add: s1_def)
  have d: "1 = max (st_cluster s1) (last (st_neigh_clusters s1))" by (simp add: s1_def)
  from C2_merge_accept [OF s1_accepts a b c d] s1_accepts a b show ?thesis by blast
qed

section \<open>The diagonal and the rejected pairs of the distance matrix\<close>

text \<open>\<open>diag_inf M\<close>: every diagonal entry of \<open>M\<close> is \<open>+inf\<close>. \<open>diag_inf_but k M\<close> leaves
  the entry \<open>(k, k)\<close> out: the state between the recomputation of row and column \<open>k\<close>
  and \<^verbatim>\<open>maha[ka, ka] = np.inf\<close>.\<close>

definition diag_inf :: "fl list list \<Rightarrow> bool" where
  "diag_inf M \<longleftrightarrow> list_all (\<lambda>i. i < length (M ! i) \<longrightarrow> M ! i ! i = PInf) [0..<length M]"

definition diag_inf_but :: "nat \<Rightarrow> fl list list \<Rightarrow> bool" where
  "diag_inf_but k M \<longleftrightarrow>
     list_all (\<lambda>i. i < length (M ! i) \<and> i \<noteq> k \<longrightarrow> M ! i ! i = PInf) [0..<length M]"

lemma diag_inf_iff: "diag_inf M \<longleftrightarrow> (\<forall>i<length M. i < length (M ! i) \<longrightarrow> M ! i ! i = PInf)"
  by (auto simp: diag_inf_def list_all_iff)

lemma diag_inf_but_iff:
  "diag_inf_but k M \<longleftrightarrow> (\<forall>i<length M. i < length (M ! i) \<and> i \<noteq> k \<longrightarrow> M ! i ! i = PInf)"
  by (auto simp: diag_inf_but_def list_all_iff)

lemma calculate_maha_clusters_raises:
  "calculate_maha_clusters v = Inl TypeError \<or> calculate_maha_clusters v = Inl ValueError"
  by (simp add: calculate_maha_clusters_def Let_def)

lemma delete_both_diag:
  assumes c: "delete_column M kb = Inr M1" and r: "np_delete M1 kb = Inr M2"
    and d: "diag_inf M"
  shows "diag_inf M2"
proof -
  let ?f = "\<lambda>row. take kb row @ drop (Suc kb) row"
  from c have M1: "M1 = map ?f M" by (auto simp: delete_column_def split: if_splits)
  from r have kb: "kb < length M1" and M2: "M2 = take kb M1 @ drop (Suc kb) M1"
    by (auto simp: np_delete_def split: if_splits)
  have kbM: "kb < length M" using kb by (simp add: M1)
  show ?thesis unfolding diag_inf_iff
  proof (intro allI impI)
    fix i assume i: "i < length M2" and il: "i < length (M2 ! i)"
    from i kb have si: "Suc i < length M1" by (simp add: M2)
    then have siM: "Suc i < length M" by (simp add: M1)
    show "M2 ! i ! i = PInf"
    proof (cases "i < kb")
      case True
      then have row: "M2 ! i = ?f (M ! i)"
        using nth_delete [OF kb si] siM by (simp add: M2 M1)
      with il True have ii: "i < length (M ! i)" by (auto simp: min_def split: if_splits)
      with d siM have "M ! i ! i = PInf" by (simp add: diag_inf_iff)
      with True ii show ?thesis by (simp add: row nth_append)
    next
      case False
      then have row: "M2 ! i = ?f (M ! Suc i)"
        using nth_delete [OF kb si] siM by (simp add: M2 M1)
      show ?thesis
      proof (cases "kb < length (M ! Suc i)")
        case True
        with il row have "Suc i < length (M ! Suc i)" by (auto simp: min_def)
        with d siM have "M ! Suc i ! Suc i = PInf" by (simp add: diag_inf_iff)
        moreover have "?f (M ! Suc i) ! i = M ! Suc i ! Suc i"
          using nth_delete [OF True \<open>Suc i < length (M ! Suc i)\<close>] False by simp
        ultimately show ?thesis by (simp add: row)
      next
        case short: False
        with il row False show ?thesis by simp
      qed
    qed
  qed
qed

lemma broadcast_length: "broadcast_to vals n = Inr r \<Longrightarrow> length r = n"
  by (auto simp: broadcast_to_def split: if_splits)

lemma set_row_diag:
  assumes "set_row M k vals = Inr M'" and "diag_inf_but k M"
  shows "diag_inf_but k M'"
proof -
  from assms(1) obtain r where "M' = M[k := r]"
    by (auto simp: set_row_def ebind_Inr_iff split: if_splits)
  with assms(2) show ?thesis by (auto simp: diag_inf_but_iff nth_list_update)
qed

lemma set_column_diag:
  assumes "set_column M k vals = Inr M'" and "diag_inf_but k M"
  shows "diag_inf_but k M'"
proof -
  from assms(1) obtain c where c: "length c = length M"
    and M': "M' = map (\<lambda>(row, x). row[k := x]) (zip M c)"
    by (auto simp: set_column_def ebind_Inr_iff dest: broadcast_length split: if_splits)
  have "M' ! i = (M ! i)[k := c ! i]" if "i < length M" for i
    using that c by (simp add: M')
  moreover have "length M' = length M" using c by (simp add: M')
  ultimately show ?thesis using assms(2) by (auto simp: diag_inf_but_iff)
qed

lemma set_entry_diag:
  assumes "set_entry M k k PInf = Inr M'" and "diag_inf_but k M"
  shows "diag_inf M'"
  unfolding diag_inf_iff
proof (intro allI impI)
  fix i assume i: "i < length M'" "i < length (M' ! i)"
  show "M' ! i ! i = PInf"
  proof (cases "i = k")
    case True
    with set_entry_sets(1) [OF assms(1)] show ?thesis by simp
  next
    case False
    then have "(i, i) \<noteq> (k, k)" by simp
    from set_entry_sets(4) [OF assms(1) this] i False assms(2)
      set_entry_sets(2) [OF assms(1)] set_entry_sets(3) [OF assms(1), of i]
    show ?thesis by (simp add: diag_inf_but_iff)
  qed
qed

lemma diag_inf_weaken: "diag_inf M \<Longrightarrow> diag_inf_but k M"
  by (simp add: diag_inf_iff diag_inf_but_iff)

lemma accept_maha_diag:
  assumes "accept_maha v lv M ka kb = Inr M'" and "diag_inf M"
  shows "diag_inf M'"
proof -
  from assms(1) obtain M1 M2 M3 M4 r c where
    1: "delete_column M kb = Inr M1" and 2: "np_delete M1 kb = Inr M2"
    and 3: "set_row M2 ka r = Inr M3" and 4: "set_column M3 ka c = Inr M4"
    and 5: "set_entry M4 ka ka PInf = Inr M'"
    unfolding accept_maha_def Let_def by (auto simp: ebind_Inr_iff split: if_splits)
  from delete_both_diag [OF 1 2 assms(2)] have "diag_inf_but ka M2" by (rule diag_inf_weaken)
  from set_entry_diag [OF 5 set_column_diag [OF 4 set_row_diag [OF 3 this]]] show ?thesis .
qed

lemma merge_accept_diag:
  assumes "merge_accept s lv = Inr s'" and "diag_inf (st_maha s)"
  shows "diag_inf (st_maha s')"
proof -
  from assms(1) obtain v' ka kb where "accept_maha v' lv (st_maha s) ka kb = Inr (st_maha s')"
    unfolding merge_accept_def Let_def ebind_Inr_iff by auto
  from accept_maha_diag [OF this assms(2)] show ?thesis .
qed

lemma merge_reject_diag:
  assumes "merge_reject s = Inr s'" and "diag_inf (st_maha s)"
  shows "diag_inf (st_maha s')"
  using assms(2) merge_reject_entries(3-5) [OF assms(1)]
  by (simp add: diag_inf_iff)

lemma merge_iter_diag:
  assumes "merge_iter check_merge scores s = Inr s'" and "diag_inf (st_maha s)"
  shows "diag_inf (st_maha s')"
  using assms(1)
  by (cases rule: merge_iter_cases) (auto intro: merge_accept_diag merge_reject_diag assms(2))

lemma merge_loop_diag:
  "diag_inf (st_maha s) \<Longrightarrow> merge_loop check_merge scores s = Some (Inr s')
     \<Longrightarrow> diag_inf (st_maha s')"
proof (induction s rule: wf_induct_rule [OF wf_inv_image [OF wf_lex_prod [OF wf_less_than wf_less_than]], of merge_measure])
  case (1 s)
  show ?case
  proof (cases "st_neigh_clusters s = []")
    case True
    with "1.prems"(2) have "s' = s" by (subst (asm) merge_loop.simps) simp
    with "1.prems"(1) show ?thesis by simp
  next
    case False
    show ?thesis
    proof (cases "merge_iter check_merge scores s")
      case (Inl e)
      with False "1.prems"(2) show ?thesis by (subst (asm) merge_loop.simps) simp
    next
      case (Inr t)
      from merge_iter_decreases [OF False Inr]
      have lt: "(t, s) \<in> inv_image (less_than <*lex*> less_than) merge_measure"
        by (simp add: inv_image_def)
      from False Inr "1.prems"(2) have "merge_loop check_merge scores t = Some (Inr s')"
        by (subst (asm) merge_loop.simps) simp
      from "1.IH" [OF lt merge_iter_diag [OF Inr "1.prems"(1)] this] show ?thesis .
    qed
  qed
qed


definition s3 :: mstate where
  "s3 = s2\<lparr>st_neigh_clusters := [], st_maha := [[PInf, PInf], [PInf, PInf]]\<rparr>"

text \<open>
  C4, as stated, fails. On \<open>s0\<close> the anchor is component \<open>0\<close> and the queue \<open>[1, 2]\<close>.
  The first pass rejects the pair \<open>(0, 2)\<close>: both entries are \<open>+inf\<close>. The second pass
  accepts the pair \<open>(0, 1)\<close>: component \<open>1\<close> is deleted, the former component \<open>2\<close> is
  now component \<open>1\<close>, and row and column \<open>0\<close> of the matrix are recomputed from the merged
  parameters. The only pair left is the survivor and the former component \<open>2\<close>, the pair
  rejected before: its two entries are now \<open>25/2\<close> and \<open>25/4\<close>, finite and below the gate,
  and the pair is queued again.
\<close>

theorem C4_rejected_pair_counterexample:
  "st_neigh_clusters s0 = [1, 2]
   \<and> merge_iter near_only [0, 1, 2] s0 = Inr s1
   \<and> st_maha s1 ! 0 ! 2 = PInf \<and> st_maha s1 ! 2 ! 0 = PInf
   \<and> st_neigh_clusters s1 = [1]
   \<and> merge_iter near_only [0, 1, 2] s1 = Inr s2
   \<and> muhat (st_vbParam s2) = [[Fin (1 / 2)], [Fin 3]]
   \<and> st_maha s2 = [[PInf, Fin (25 / 2)], [Fin (25 / 4), PInf]]
   \<and> st_neigh_clusters s2 = [1]"
  by code_simp

text \<open>
  C4, amended: when the matrix handed to \<^verbatim>\<open>merge_move_patches\<close> has \<open>+inf\<close> on its
  diagonal, every pass of the merge loop, accepting or rejecting, keeps the diagonal
  \<open>+inf\<close>, and so does the whole loop; a rejection sets both directional entries of its
  pair to \<open>+inf\<close> and turns no \<open>+inf\<close> entry into anything else. (An accepted merge
  recomputes the row and the column of the surviving component, the entries of pairs
  rejected before included.)
\<close>

theorem C4_diagonal_and_rejections:
  "(diag_inf (st_maha s) \<and> merge_iter check_merge scores s = Inr s' \<longrightarrow> diag_inf (st_maha s'))
   \<and> (diag_inf (st_maha s) \<and> merge_loop check_merge scores s = Some (Inr s'')
        \<longrightarrow> diag_inf (st_maha s''))
   \<and> (merge_reject s = Inr t \<longrightarrow>
        st_maha t ! min (st_cluster s) (last (st_neigh_clusters s))
                  ! max (st_cluster s) (last (st_neigh_clusters s)) = PInf
        \<and> st_maha t ! max (st_cluster s) (last (st_neigh_clusters s))
                    ! min (st_cluster s) (last (st_neigh_clusters s)) = PInf
        \<and> (\<forall>i j. st_maha s ! i ! j = PInf \<longrightarrow> st_maha t ! i ! j = PInf))"
proof (intro conjI impI)
  assume "diag_inf (st_maha s) \<and> merge_iter check_merge scores s = Inr s'"
  then show "diag_inf (st_maha s')" using merge_iter_diag by blast
next
  assume "diag_inf (st_maha s) \<and> merge_loop check_merge scores s = Some (Inr s'')"
  then show "diag_inf (st_maha s'')" using merge_loop_diag by blast
next
  assume r: "merge_reject s = Inr t"
  show "st_maha t ! min (st_cluster s) (last (st_neigh_clusters s))
                  ! max (st_cluster s) (last (st_neigh_clusters s)) = PInf"
    by (rule merge_reject_entries(1) [OF r])
  show "st_maha t ! max (st_cluster s) (last (st_neigh_clusters s))
                    ! min (st_cluster s) (last (st_neigh_clusters s)) = PInf"
    by (rule merge_reject_entries(2) [OF r])
  show "\<forall>i j. st_maha s ! i ! j = PInf \<longrightarrow> st_maha t ! i ! j = PInf"
    using merge_reject_entries(3) [OF r] by blast
qed

theorem C4_diagonal_and_rejections_witness:
  "diag_inf (st_maha s0)
   \<and> merge_iter near_only [0, 1, 2] s0 = Inr s1
   \<and> diag_inf (st_maha s1)
   \<and> merge_loop near_only [0, 1, 2] s0 = Some (Inr s3)
   \<and> diag_inf (st_maha s3)
   \<and> merge_reject s0 = Inr s1
   \<and> st_maha s1 ! 0 ! 2 = PInf \<and> st_maha s1 ! 2 ! 0 = PInf"
proof -
  have a: "diag_inf (st_maha s0)" by code_simp
  have c: "merge_loop near_only [0, 1, 2] s0 = Some (Inr s3)" by code_simp
  have d: "merge_reject s0 = Inr s1" by code_simp
  have e: "min (st_cluster s0) (last (st_neigh_clusters s0)) = 0"
    "max (st_cluster s0) (last (st_neigh_clusters s0)) = 2" by (simp_all add: s0_def)
  from C4_diagonal_and_rejections [of s0 near_only "[0, 1, 2]" s1 s3 s1]
    a c d s0_rejects
  show ?thesis unfolding e by blast
qed

section \<open>A rejected pair is tested again\<close>

text \<open>The local problem of the third pass on \<open>s0\<close>: the merged component and the former
  component \<open>2\<close>.\<close>

definition pair_again :: "dense vbPar" where
  "pair_again = \<lparr>muhat = [[Fin (1 / 2)], [Fin 3]], Vhat = [[[Fin 1]], [[Fin 1]]],
      invVhat = [[[Fin 1]], [[Fin 1]]], nuhat = [Fin 2, Fin 1], lambdahat = [Fin 2, Fin 1],
      ahat = [Fin 2, Fin 1], rhat = [[Fin 1, Fin 0], [Fin 1, Fin 0], [Fin 0, Fin 1]]\<rparr>"

text \<open>
  C7, as stated, fails in its last clause: a rejection does not set the distances of its
  pair to \<open>+inf\<close> permanently. On \<open>s0\<close> the first pass rejects the anchor and component
  \<open>2\<close>, and both distances are \<open>+inf\<close> in \<open>s1\<close>. The second pass accepts the anchor and
  component \<open>1\<close>; in \<open>s2\<close> the distances between the anchor and the former component \<open>2\<close>
  (now component \<open>1\<close>) are \<open>25/2\<close> and \<open>25/4\<close>, the pair is in the queue, and the third
  pass hands it to the merge test once more, which rejects it once more.
\<close>

theorem C7_rejection_not_permanent_counterexample:
  "merge_iter near_only [0, 1, 2] s0 = Inr s1
   \<and> merge_reject s0 = Inr s1
   \<and> st_maha s1 ! 0 ! 2 = PInf \<and> st_maha s1 ! 2 ! 0 = PInf
   \<and> merge_iter near_only [0, 1, 2] s1 = Inr s2
   \<and> merge_accept s1 merged_comp = Inr s2
   \<and> st_maha s2 ! 0 ! 1 = Fin (25 / 2) \<and> st_maha s2 ! 1 ! 0 = Fin (25 / 4)
   \<and> st_neigh_clusters s2 = [1]
   \<and> local_problem [0, 1, 2::nat] s2 = Inr ([0, 1, 2], pair_again)
   \<and> merge_iter near_only [0, 1, 2] s2 = Inr s3
   \<and> merge_reject s2 = Inr s3"
  by code_simp

section \<open>Properties of the feature channels\<close>

text \<open>The two rankings, channel by channel: the largest absolute value of the mean
  waveform, its peak-to-peak amplitude, and the largest deviation over the samples.\<close>

definition max_abs_amplitude :: "real list list list \<Rightarrow> nat \<Rightarrow> real" where
  "max_abs_amplitude wf_data c = amax (map abs (map mean (wf_data ! c)))"

definition peak_to_peak :: "real list list list \<Rightarrow> nat \<Rightarrow> real" where
  "peak_to_peak wf_data c = ptp (map mean (wf_data ! c))"

definition max_mad :: "(real list \<Rightarrow> real) \<Rightarrow> real list list list \<Rightarrow> nat \<Rightarrow> real" where
  "max_mad mad wf_data c = amax (map mad (wf_data ! c))"

text \<open>\<open>top_of n key cand sel\<close>: \<open>sel\<close> is a choice of the \<open>n\<close> candidates of largest key
  (all of them if there are fewer).\<close>

definition top_of :: "nat \<Rightarrow> (nat \<Rightarrow> real) \<Rightarrow> nat list \<Rightarrow> nat list \<Rightarrow> bool" where
  "top_of n key cand sel \<longleftrightarrow>
     distinct sel \<and> set sel \<subseteq> set cand \<and> length sel = min n (length cand)
     \<and> list_all (\<lambda>c. list_all (\<lambda>c'. c' \<in> set sel \<or> key c' \<le> key c) cand) sel"

lemma top_of_take_rev_sort:
  assumes "distinct xs"
  shows "top_of n f xs (take n (rev (sort_key f xs)))"
proof -
  let ?ys = "rev (sort_key f xs)"
  have d: "distinct ?ys" using assms by simp
  have s: "set ?ys = set xs" by simp
  have l: "length ?ys = length xs" by simp
  have "sorted (map f (sort_key f xs))" by (rule sorted_sort_key)
  then have "sorted (rev (map f ?ys))" by (simp add: rev_map)
  then have desc: "sorted_wrt (\<lambda>a b. f b \<le> f a) ?ys"
    by (simp add: sorted_wrt_rev sorted_map rev_map [symmetric] del: rev_rev_ident)
  have split: "?ys = take n ?ys @ drop n ?ys" by simp
  from desc have ord: "\<forall>c\<in>set (take n ?ys). \<forall>c'\<in>set (drop n ?ys). f c' \<le> f c"
    by (subst (asm) split) (simp only: sorted_wrt_append, blast)
  have "\<forall>c\<in>set (take n ?ys). \<forall>c'\<in>set xs. c' \<in> set (take n ?ys) \<or> f c' \<le> f c"
  proof (intro ballI)
    fix c c' assume c: "c \<in> set (take n ?ys)" and c': "c' \<in> set xs"
    from c' s have "c' \<in> set (take n ?ys) \<union> set (drop n ?ys)"
      by (metis append_take_drop_id set_append)
    then show "c' \<in> set (take n ?ys) \<or> f c' \<le> f c" using ord c by blast
  qed
  moreover have "distinct (take n ?ys)" using d by (rule distinct_take)
  moreover have "set (take n ?ys) \<subseteq> set xs" using s by (metis set_take_subset)
  moreover have "length (take n ?ys) = min n (length xs)" by (simp add: min.commute)
  ultimately show ?thesis by (simp add: top_of_def list_all_iff)
qed


lemma top_of_cong:
  assumes "top_of n f cand sel" and "\<forall>c\<in>set cand. f c = g c"
  shows "top_of n g cand sel"
proof -
  from assms(1) have sub: "set sel \<subseteq> set cand" by (simp add: top_of_def)
  have "(c' \<in> set sel \<or> f c' \<le> f c) = (c' \<in> set sel \<or> g c' \<le> g c)"
    if "c \<in> set sel" "c' \<in> set cand" for c c'
    using that sub assms(2) by auto
  then show ?thesis using assms(1) unfolding top_of_def list_all_iff by blast
qed

lemma top_of_map_nth:
  assumes d: "distinct idx" and t: "top_of n k [0..<length idx] pos"
    and key: "\<forall>r<length idx. k r = key (idx ! r)"
  shows "top_of n key idx (map (\<lambda>r. idx ! r) pos)"
proof -
  from t have dp: "distinct pos" and sub: "set pos \<subseteq> {0..<length idx}"
    and len: "length pos = min n (length idx)"
    and ord: "\<forall>r\<in>set pos. \<forall>r'<length idx. r' \<in> set pos \<or> k r' \<le> k r"
    by (auto simp: top_of_def list_all_iff)
  have inj: "inj_on (\<lambda>r. idx ! r) (set pos)"
  proof (rule inj_onI)
    fix x y assume "x \<in> set pos" "y \<in> set pos" "idx ! x = idx ! y"
    with sub have "x < length idx" "y < length idx" "idx ! x = idx ! y" by auto
    with d show "x = y" by (simp add: nth_eq_iff_index_eq)
  qed
  have 1: "distinct (map (\<lambda>r. idx ! r) pos)" using dp inj by (simp add: distinct_map)
  have 2: "set (map (\<lambda>r. idx ! r) pos) \<subseteq> set idx" using sub by auto
  have 3: "\<forall>c\<in>set (map (\<lambda>r. idx ! r) pos). \<forall>c'\<in>set idx.
             c' \<in> set (map (\<lambda>r. idx ! r) pos) \<or> key c' \<le> key c"
  proof (intro ballI)
    fix c c' assume "c \<in> set (map (\<lambda>r. idx ! r) pos)" and "c' \<in> set idx"
    then obtain r r' where r: "r \<in> set pos" "c = idx ! r" and r': "r' < length idx" "c' = idx ! r'"
      by (auto simp: in_set_conv_nth)
    from r(1) sub have rl: "r < length idx" by auto
    from ord r(1) r'(1) consider "r' \<in> set pos" | "k r' \<le> k r" by blast
    then show "c' \<in> set (map (\<lambda>r. idx ! r) pos) \<or> key c' \<le> key c"
    proof cases
      case 1
      then show ?thesis using r'(2) by auto
    next
      case 2
      with key rl r' r show ?thesis by simp
    qed
  qed
  from 1 2 3 len show ?thesis by (simp add: top_of_def list_all_iff)
qed

lemma set_union1d: "set (union1d a b) = set a \<union> set b"
  and sorted_union1d: "sorted (union1d a b)"
  and distinct_union1d: "distinct (union1d a b)"
  by (simp_all add: union1d_def)

text \<open>The feature channels with the first ranking taken by peak-to-peak amplitude, as
  the specification words it; for comparison only.\<close>

definition feature_channels_by_ptp ::
  "(real list \<Rightarrow> real) \<Rightarrow> real list list list \<Rightarrow> nat \<Rightarrow> nat \<Rightarrow> nat list" where
  "feature_channels_by_ptp mad wf_data n_mad_chans n_max_chans =
     (let template = map (map mean) wf_data;
          ptps = map ptp template;
          max_chans = take n_max_chans (rev (argsort ptps));
          chan_indexes_2SU = filter (\<lambda>c. 2 < ptps ! c) [0..<length ptps];
          rank_chans_max = map (\<lambda>c. amax (map mad (wf_data ! c))) chan_indexes_2SU;
          mad_chans = take n_mad_chans (map (\<lambda>r. chan_indexes_2SU ! r) (rev (argsort rank_chans_max)))
      in union1d max_chans mad_chans)"

text \<open>Two channels, two samples, one spike: the mean waveform of channel \<open>0\<close> is
  \<open>(3, -3)\<close>, that of channel \<open>1\<close> is \<open>(4, 3)\<close>.\<close>

definition wf_two :: "real list list list" where
  "wf_two = [[[3], [-3]], [[4], [3]]]"

text \<open>
  C9, as stated, fails. The first ranking of the code is by
  \<^verbatim>\<open>np.max(np.abs(template), axis=1)\<close> (its comment: find max amplitude chans), not by the
  peak-to-peak amplitude. Channel \<open>0\<close> has the larger peak-to-peak amplitude (\<open>6\<close> against
  \<open>1\<close>) and is the only channel above \<open>2\<close>, so the set of the claim is \<open>{0}\<close>; channel \<open>1\<close>
  has the larger absolute value (\<open>4\<close> against \<open>3\<close>), and the code returns \<open>{0, 1}\<close>.
\<close>

theorem C9_ranking_counterexample:
  "peak_to_peak wf_two 0 = 6 \<and> peak_to_peak wf_two 1 = 1
   \<and> max_abs_amplitude wf_two 0 = 3 \<and> max_abs_amplitude wf_two 1 = 4
   \<and> feature_channels_by_ptp (\<lambda>xs. 0) wf_two 1 1 = [0]
   \<and> feature_channels (\<lambda>xs. 0) wf_two 1 1 = [0, 1]"
  by code_simp

text \<open>
  C9, amended: the feature-channel set is the union of a choice of the \<open>n_max_chans\<close>
  channels of largest absolute value of the mean waveform and a choice of the
  \<open>n_mad_chans\<close> channels of largest deviation (the largest over the samples of the
  median absolute deviation over the spikes), the latter among the channels whose mean
  waveform has a peak-to-peak amplitude above \<open>2\<close>; it is returned sorted, without
  repetition.
\<close>

theorem C9_feature_channels:
  "\<exists>max_chans mad_chans.
     top_of n_max_chans (max_abs_amplitude wf_data) [0..<length wf_data] max_chans
     \<and> top_of n_mad_chans (max_mad mad wf_data)
         (filter (\<lambda>c. 2 < peak_to_peak wf_data c) [0..<length wf_data]) mad_chans
     \<and> set (feature_channels mad wf_data n_mad_chans n_max_chans) = set max_chans \<union> set mad_chans
     \<and> sorted (feature_channels mad wf_data n_mad_chans n_max_chans)
     \<and> distinct (feature_channels mad wf_data n_mad_chans n_max_chans)"
proof -
  let ?C = "length wf_data"
  let ?template = "map (map mean) wf_data"
  let ?rank = "map (\<lambda>row. amax (map abs row)) ?template"
  let ?max_chans = "take n_max_chans (rev (argsort ?rank))"
  let ?ptps = "map ptp ?template"
  let ?idx = "filter (\<lambda>c. 2 < ?ptps ! c) [0..<length ?ptps]"
  let ?keys = "map (\<lambda>c. amax (map mad (wf_data ! c))) ?idx"
  let ?pos = "take n_mad_chans (rev (argsort ?keys))"
  let ?mad_chans = "take n_mad_chans (map (\<lambda>r. ?idx ! r) (rev (argsort ?keys)))"
  have fc: "feature_channels mad wf_data n_mad_chans n_max_chans = union1d ?max_chans ?mad_chans"
    by (simp add: feature_channels_def Let_def)
  have "top_of n_max_chans (\<lambda>i. ?rank ! i) [0..<?C] ?max_chans"
    using top_of_take_rev_sort [of "[0..<?C]" n_max_chans "\<lambda>i. ?rank ! i"]
    by (simp add: argsort_def)
  then have 1: "top_of n_max_chans (max_abs_amplitude wf_data) [0..<?C] ?max_chans"
    by (rule top_of_cong) (simp add: max_abs_amplitude_def)
  have idx: "?idx = filter (\<lambda>c. 2 < peak_to_peak wf_data c) [0..<?C]"
    by (rule filter_cong) (simp_all add: peak_to_peak_def)
  have "top_of n_mad_chans (\<lambda>r. ?keys ! r) [0..<length ?idx] ?pos"
    using top_of_take_rev_sort [of "[0..<length ?idx]" n_mad_chans "\<lambda>r. ?keys ! r"]
    by (simp add: argsort_def)
  then have "top_of n_mad_chans (max_mad mad wf_data) ?idx (map (\<lambda>r. ?idx ! r) ?pos)"
    by (rule top_of_map_nth [rotated]) (simp_all add: max_mad_def)
  then have 2: "top_of n_mad_chans (max_mad mad wf_data)
         (filter (\<lambda>c. 2 < peak_to_peak wf_data c) [0..<?C]) ?mad_chans"
    by (simp only: idx take_map)
  from 1 2 show ?thesis
    unfolding fc using set_union1d sorted_union1d distinct_union1d by blast
qed

section \<open>Properties of the stability loop\<close>

text \<open>Three points and two components: one point on each component and one shared
  evenly (\<open>rhat_mixed\<close>), or every point on one component (\<open>rhat_clear\<close>).\<close>

definition rhat_mixed :: dense where
  "rhat_mixed = [[Fin (95 / 100), Fin (5 / 100)], [Fin (4 / 100), Fin (96 / 100)],
                 [Fin (1 / 2), Fin (1 / 2)]]"




definition is_stable :: "dense \<Rightarrow> nat \<Rightarrow> bool" where
  "is_stable R k \<longleftrightarrow> flt (Fin (9 / 10)) (stability_of R k)"

definition points_of :: "nat list \<Rightarrow> dense \<Rightarrow> nat \<Rightarrow> nat list" where
  "points_of index_vals R k = map (\<lambda>j. index_vals ! j) (support R k)"

lemma take_rows_Inr:
  "take_rows xs idx = Inr g \<Longrightarrow> g = map (\<lambda>j. xs ! j) idx \<and> (\<forall>j\<in>set idx. j < length xs)"
  by (auto simp: take_rows_def list_all_iff split: if_splits)

lemma np_delete_many_Inr:
  "np_delete_many xs idx = Inr r \<Longrightarrow>
     r = map (\<lambda>j. xs ! j) (filter (\<lambda>j. j \<notin> set idx) [0..<length xs])"
  by (auto simp: np_delete_many_def split: if_splits)

lemma scan_components_result:
  "scan_components iv R ks (rem, roll) = Inr (rem', roll') \<Longrightarrow>
     rem' = rem @ concat (map (support R) (filter (is_stable R) ks))
     \<and> roll' = roll @ map (points_of iv R) (filter (is_stable R) ks)
     \<and> (\<forall>k\<in>set (filter (is_stable R) ks). \<forall>j\<in>set (support R k). j < length iv)"
proof (induction ks arbitrary: rem roll)
  case Nil
  then show ?case by simp
next
  case (Cons k ks)
  show ?case
  proof (cases "is_stable R k")
    case True
    with Cons.prems obtain g where g: "take_rows iv (support R k) = Inr g"
      and rest: "scan_components iv R ks (rem @ support R k, roll @ [g]) = Inr (rem', roll')"
      by (auto simp: is_stable_def ebind_Inr_iff)
    from take_rows_Inr [OF g] have "g = points_of iv R k" "\<forall>j\<in>set (support R k). j < length iv"
      by (simp_all add: points_of_def)
    with Cons.IH [OF rest] True show ?thesis by simp
  next
    case False
    with Cons.prems have "scan_components iv R ks (rem, roll) = Inr (rem', roll')"
      by (simp add: is_stable_def)
    from Cons.IH [OF this] False show ?thesis by simp
  qed
qed

lemma stable_support: "is_stable R k \<Longrightarrow> support R k \<noteq> []"
  by (auto simp: is_stable_def stability_of_def fmean_def fsum_def)

lemma concat_supports_empty:
  "concat (map (support R) (filter (is_stable R) ks)) = [] \<longleftrightarrow> filter (is_stable R) ks = []"
proof (induction ks)
  case Nil
  then show ?case by simp
next
  case (Cons k ks)
  then show ?case using stable_support [of R k] by simp
qed

lemma flt_trans: "flt a b \<Longrightarrow> flt b c \<Longrightarrow> flt a c"
  by (cases a; cases b; cases c) simp_all

lemma flt_irrefl: "\<not> flt a a"
  by (cases a) simp_all

lemma exceeds_keeps:
  assumes "\<not> flt b z"
  shows "exceeds y b \<Longrightarrow> \<not> flt y z" and "\<not> exceeds y b \<Longrightarrow> \<not> flt b y"
proof -
  show "\<not> flt y z" if "exceeds y b"
  proof
    assume yz: "flt y z"
    then have "\<not> is_nan y" by (cases y) simp_all
    with that have "flt b y" by (simp add: exceeds_def split: if_splits)
    from flt_trans [OF this yz] assms show False by simp
  qed
  show "\<not> flt b y" if "\<not> exceeds y b"
  proof
    assume "flt b y"
    then have "\<not> is_nan b" "\<not> is_nan y" by (cases b; cases y; simp)+
    with that \<open>flt b y\<close> show False by (simp add: exceeds_def)
  qed
qed

lemma argmax_from_max:
  assumes "i + length ys = length xs" and "drop i xs = ys"
    and "bi < i" and "b = xs ! bi" and "\<forall>j<i. \<not> flt b (xs ! j)"
  shows "argmax_from bi b i ys < length xs
         \<and> (\<forall>j<length xs. \<not> flt (xs ! argmax_from bi b i ys) (xs ! j))"
  using assms
proof (induction ys arbitrary: bi b i)
  case Nil
  then show ?case by simp
next
  case (Cons y ys)
  from Cons.prems(1) have i: "i < length xs" by simp
  from Cons_nth_drop_Suc [OF i] Cons.prems(2) have "xs ! i # drop (Suc i) xs = y # ys" by simp
  then have y: "y = xs ! i" and d: "drop (Suc i) xs = ys" by simp_all
  have len: "Suc i + length ys = length xs" using Cons.prems(1) by simp
  show ?case
  proof (cases "exceeds y b")
    case True
    have "\<forall>j<Suc i. \<not> flt y (xs ! j)"
    proof (intro allI impI)
      fix j assume "j < Suc i"
      then consider "j < i" | "j = i" by linarith
      then show "\<not> flt y (xs ! j)"
      proof cases
        case 1
        with Cons.prems(5) have "\<not> flt b (xs ! j)" by simp
        from exceeds_keeps(1) [OF this True] show ?thesis .
      next
        case 2
        then show ?thesis using y flt_irrefl by simp
      qed
    qed
    from Cons.IH [OF len d _ y this] True show ?thesis by simp
  next
    case False
    have "\<forall>j<Suc i. \<not> flt b (xs ! j)"
    proof (intro allI impI)
      fix j assume "j < Suc i"
      then consider "j < i" | "j = i" by linarith
      then show "\<not> flt b (xs ! j)"
      proof cases
        case 1
        with Cons.prems(5) show ?thesis by simp
      next
        case 2
        have "\<not> flt b b" by (rule flt_irrefl)
        from exceeds_keeps(2) [OF this False] 2 y show ?thesis by simp
      qed
    qed
    from Cons.IH [OF len d _ Cons.prems(4) this] Cons.prems(3) False show ?thesis by simp
  qed
qed

lemma np_argmax_max:
  assumes "np_argmax xs = Inr m"
  shows "m < length xs \<and> (\<forall>j<length xs. \<not> flt (xs ! m) (xs ! j))"
proof (cases xs)
  case Nil
  with assms show ?thesis by (simp add: np_argmax_def)
next
  case (Cons x ys)
  with assms have m: "m = argmax_from 0 x 1 ys" by (simp add: np_argmax_def)
  have "argmax_from 0 x 1 ys < length xs
         \<and> (\<forall>j<length xs. \<not> flt (xs ! argmax_from 0 x 1 ys) (xs ! j))"
    by (rule argmax_from_max) (simp_all add: Cons flt_irrefl)
  then show ?thesis by (simp add: m)
qed


definition stable_components :: "dense \<Rightarrow> nat list" where
  "stable_components R = filter (is_stable R) [0..<ncols R]"

lemma extract_round_stable:
  assumes ex: "extract_round iv R rolling = Inr (rest, rolling1)"
    and st: "stable_components R \<noteq> []"
  shows "rolling1 = rolling @ map (points_of iv R) (stable_components R)"
    and "rest = map (\<lambda>j. iv ! j)
           (filter (\<lambda>j. \<not> list_ex (\<lambda>k. j \<in> set (support R k)) (stable_components R))
              [0..<length iv])"
    and "\<forall>k\<in>set (stable_components R). \<forall>j\<in>set (support R k). j < length iv"
proof -
  from ex obtain rem roll where sc: "scan_components iv R [0..<ncols R] ([], rolling) = Inr (rem, roll)"
    and br: "(if 0 < length rem then
            ebind (np_delete_many iv rem) (\<lambda>rest. Inr (rest, roll))
          else
            ebind (np_argmax (map (stability_of R) [0..<ncols R])) (\<lambda>most_stable.
            let index = support R most_stable in
            ebind (take_rows iv index) (\<lambda>points.
            ebind (np_delete_many iv index) (\<lambda>rest.
            Inr (rest, roll @ [points]))))) = Inr (rest, rolling1)"
    unfolding extract_round_def by (auto simp: ebind_Inr_iff)
  from scan_components_result [OF sc]
  have rem: "rem = concat (map (support R) (stable_components R))"
    and roll: "roll = rolling @ map (points_of iv R) (stable_components R)"
    and inr: "\<forall>k\<in>set (stable_components R). \<forall>j\<in>set (support R k). j < length iv"
    by (simp_all add: stable_components_def)
  have "rem = [] \<longleftrightarrow> stable_components R = []"
    by (simp only: rem stable_components_def concat_supports_empty)
  with st have "rem \<noteq> []" by simp
  with br have d: "np_delete_many iv rem = Inr rest" and r1: "rolling1 = roll"
    by (auto simp: ebind_Inr_iff)
  show "rolling1 = rolling @ map (points_of iv R) (stable_components R)"
    by (simp add: r1 roll)
  have "(\<lambda>j. j \<notin> set rem) = (\<lambda>j. \<not> list_ex (\<lambda>k. j \<in> set (support R k)) (stable_components R))"
    by (auto simp: rem list_ex_iff)
  with np_delete_many_Inr [OF d]
  show "rest = map (\<lambda>j. iv ! j)
           (filter (\<lambda>j. \<not> list_ex (\<lambda>k. j \<in> set (support R k)) (stable_components R))
              [0..<length iv])" by simp
  show "\<forall>k\<in>set (stable_components R). \<forall>j\<in>set (support R k). j < length iv" by (rule inr)
qed

lemma extract_round_most_stable:
  assumes ex: "extract_round iv R rolling = Inr (rest, rolling1)"
    and st: "stable_components R = []"
  shows "\<exists>m. np_argmax (map (stability_of R) [0..<ncols R]) = Inr m
           \<and> m < ncols R
           \<and> (\<forall>k<ncols R. \<not> flt (stability_of R m) (stability_of R k))
           \<and> rolling1 = rolling @ [points_of iv R m]
           \<and> rest = map (\<lambda>j. iv ! j) (filter (\<lambda>j. j \<notin> set (support R m)) [0..<length iv])
           \<and> (\<forall>j\<in>set (support R m). j < length iv)"
proof -
  from ex obtain rem roll where sc: "scan_components iv R [0..<ncols R] ([], rolling) = Inr (rem, roll)"
    and br: "(if 0 < length rem then
            ebind (np_delete_many iv rem) (\<lambda>rest. Inr (rest, roll))
          else
            ebind (np_argmax (map (stability_of R) [0..<ncols R])) (\<lambda>most_stable.
            let index = support R most_stable in
            ebind (take_rows iv index) (\<lambda>points.
            ebind (np_delete_many iv index) (\<lambda>rest.
            Inr (rest, roll @ [points]))))) = Inr (rest, rolling1)"
    unfolding extract_round_def by (auto simp: ebind_Inr_iff)
  from scan_components_result [OF sc] st
  have rem: "rem = []" and roll: "roll = rolling"
    by (simp_all add: stable_components_def)
  from br rem obtain m g where m: "np_argmax (map (stability_of R) [0..<ncols R]) = Inr m"
    and g: "take_rows iv (support R m) = Inr g"
    and d: "np_delete_many iv (support R m) = Inr rest"
    and r1: "rolling1 = roll @ [g]"
    by (auto simp: ebind_Inr_iff Let_def)
  from np_argmax_max [OF m] have mk: "m < ncols R"
    and mx: "\<forall>k<ncols R. \<not> flt (stability_of R m) (stability_of R k)" by auto
  from take_rows_Inr [OF g] have "g = points_of iv R m" "\<forall>j\<in>set (support R m). j < length iv"
    by (simp_all add: points_of_def)
  with m mk mx r1 roll np_delete_many_Inr [OF d] show ?thesis by simp
qed

lemma extract_round_subset:
  assumes ex: "extract_round iv R rolling = Inr (rest, rolling1)"
  shows "set rest \<subseteq> set iv" and "\<forall>g\<in>set rolling1. g \<in> set rolling \<or> set g \<subseteq> set iv"
proof -
  have pts: "set (points_of iv R k) \<subseteq> set iv" if "\<forall>j\<in>set (support R k). j < length iv" for k
    using that by (auto simp: points_of_def)
  have sub: "set (map (\<lambda>j. iv ! j) (filter P [0..<length iv])) \<subseteq> set iv" for P
    by auto
  show "set rest \<subseteq> set iv"
  proof (cases "stable_components R = []")
    case True
    from extract_round_most_stable [OF ex True] obtain P where
      "rest = map (\<lambda>j. iv ! j) (filter P [0..<length iv])" by blast
    with sub show ?thesis by simp
  next
    case False
    from extract_round_stable(2) [OF ex False] sub show ?thesis by simp
  qed
  show "\<forall>g\<in>set rolling1. g \<in> set rolling \<or> set g \<subseteq> set iv"
  proof (cases "stable_components R = []")
    case True
    from extract_round_most_stable [OF ex True] obtain m where
      r: "rolling1 = rolling @ [points_of iv R m]" and "\<forall>j\<in>set (support R m). j < length iv"
      by blast
    from pts [OF this(2)] show ?thesis unfolding r by auto
  next
    case False
    from extract_round_stable(3) [OF ex False] pts
    have "\<forall>k\<in>set (stable_components R). set (points_of iv R k) \<subseteq> set iv" by blast
    then show ?thesis unfolding extract_round_stable(1) [OF ex False] by auto
  qed
qed

lemma run_mfm_loop_bounds:
  "run_mfm_loop refit s iv R rolling = Inr (groups, rounds) \<Longrightarrow> s \<le> 1000
     \<Longrightarrow> set iv \<subseteq> A \<Longrightarrow> \<forall>g\<in>set rolling. set g \<subseteq> A
     \<Longrightarrow> rounds \<le> 1000 \<and> (\<forall>g\<in>set groups. set g \<subseteq> A)"
proof (induction refit s iv R rolling rule: run_mfm_loop.induct)
  case (1 refit s iv R rolling)
  show ?case
  proof (cases "s < 1000")
    case False
    with "1.prems" show ?thesis by (simp add: run_mfm_loop.simps [of refit s])
  next
    case True
    with "1.prems"(1) obtain rest rolling1 where
      ex: "extract_round iv R rolling = Inr (rest, rolling1)"
      and br: "(if length rest \<le> 35 then Inr (rolling1, Suc s)
          else let R1 = sparsify_rhat (refit s rest) in
            if ncols R1 = 1 then Inr (rolling1 @ [rest], Suc s)
            else run_mfm_loop refit (Suc s) rest R1 rolling1) = Inr (groups, rounds)"
      by (subst (asm) run_mfm_loop.simps) (auto simp: ebind_Inr_iff)
    from extract_round_subset [OF ex] "1.prems"(3,4)
    have rest: "set rest \<subseteq> A" and roll: "\<forall>g\<in>set rolling1. set g \<subseteq> A" by blast+
    show ?thesis
    proof (cases "length rest \<le> 35")
      case short: True
      with br have "groups = rolling1" "rounds = Suc s" by simp_all
      with True roll show ?thesis by simp
    next
      case long: False
      show ?thesis
      proof (cases "ncols (sparsify_rhat (refit s rest)) = 1")
        case one: True
        with br long have "groups = rolling1 @ [rest]" "rounds = Suc s"
          by (simp_all add: Let_def)
        with True roll rest show ?thesis by simp
      next
        case more: False
        with br long have rec: "run_mfm_loop refit (Suc s) rest (sparsify_rhat (refit s rest)) rolling1
            = Inr (groups, rounds)" by (simp add: Let_def)
        from True have "Suc s \<le> 1000" by simp
        from "1.IH" [OF True long refl more rec this rest roll] show ?thesis
          by simp
      qed
    qed
  qed
qed


definition rhat_clear :: dense where
  "rhat_clear = [[Fin 1, Fin 0], [Fin 0, Fin 1], [Fin 1, Fin 0]]"

text \<open>
  What holds of the loop on every input. \<^verbatim>\<open>run_mfm\<close> runs at most 1000 rounds, and every
  group it returns holds only point numbers below the number of points kept by the triage.
  A round that leaves at most 35 points ends the loop; a refit with one component ends it
  with the remaining points as the last group; otherwise the next round runs on the
  remaining points. The extraction of a round appends, for every component whose stability
  exceeds \<open>0.90\<close>, the points with a responsibility above zero under it, and removes all
  of them; when no component qualifies, it does so for the component \<^verbatim>\<open>np.argmax\<close>
  picks. No component's stability is above that one's; this says nothing when that
  stability is \<open>NaN\<close>, which no value is above.
\<close>

lemma stability_loop_rounds:
  "(run_mfm rhat0 refit idx_keep1 = Inr (groups, rounds) \<longrightarrow>
      rounds \<le> 1000
      \<and> (\<forall>g\<in>set groups. \<forall>p\<in>set g. p < length (filter id idx_keep1)))
   \<and> (s < 1000 \<and> extract_round iv R rolling = Inr (rest, rolling1) \<longrightarrow>
        (length rest \<le> 35 \<longrightarrow> run_mfm_loop refit s iv R rolling = Inr (rolling1, Suc s))
        \<and> (35 < length rest \<and> ncols (sparsify_rhat (refit s rest)) = 1 \<longrightarrow>
             run_mfm_loop refit s iv R rolling = Inr (rolling1 @ [rest], Suc s))
        \<and> (35 < length rest \<and> ncols (sparsify_rhat (refit s rest)) \<noteq> 1 \<longrightarrow>
             run_mfm_loop refit s iv R rolling
               = run_mfm_loop refit (Suc s) rest (sparsify_rhat (refit s rest)) rolling1))
   \<and> (extract_round iv R rolling = Inr (rest, rolling1) \<and> stable_components R \<noteq> [] \<longrightarrow>
        rolling1 = rolling @ map (points_of iv R) (stable_components R)
        \<and> rest = map (\<lambda>j. iv ! j)
            (filter (\<lambda>j. \<not> list_ex (\<lambda>k. j \<in> set (support R k)) (stable_components R))
               [0..<length iv]))
   \<and> (extract_round iv R rolling = Inr (rest, rolling1) \<and> stable_components R = [] \<longrightarrow>
        (\<exists>m. np_argmax (map (stability_of R) [0..<ncols R]) = Inr m
           \<and> m < ncols R
           \<and> (\<forall>k<ncols R. \<not> flt (stability_of R m) (stability_of R k))
           \<and> rolling1 = rolling @ [points_of iv R m]
           \<and> rest = map (\<lambda>j. iv ! j) (filter (\<lambda>j. j \<notin> set (support R m)) [0..<length iv])))"
proof (intro conjI impI)
  assume r: "run_mfm rhat0 refit idx_keep1 = Inr (groups, rounds)"
  let ?n = "length (filter id idx_keep1)"
  from r have "run_mfm_loop refit 0 [0..<?n] (sparsify_rhat rhat0) [] = Inr (groups, rounds)"
    by (simp add: run_mfm_def)
  from run_mfm_loop_bounds [OF this, of "{0..<?n}"]
  have b: "rounds \<le> 1000 \<and> (\<forall>g\<in>set groups. set g \<subseteq> {0..<?n})" by simp
  then show "rounds \<le> 1000" by simp
  show "\<forall>g\<in>set groups. \<forall>p\<in>set g. p < ?n"
  proof (intro ballI)
    fix g p assume "g \<in> set groups" and p: "p \<in> set g"
    with b have "set g \<subseteq> {0..<?n}" by blast
    with p have "p \<in> {0..<?n}" by (rule rev_subsetD)
    then show "p < ?n" by simp
  qed
next
  assume a: "s < 1000 \<and> extract_round iv R rolling = Inr (rest, rolling1)"
  {
    assume "length rest \<le> 35"
    with a show "run_mfm_loop refit s iv R rolling = Inr (rolling1, Suc s)"
      by (subst run_mfm_loop.simps) simp
  next
    assume "35 < length rest \<and> ncols (sparsify_rhat (refit s rest)) = 1"
    with a show "run_mfm_loop refit s iv R rolling = Inr (rolling1 @ [rest], Suc s)"
      by (subst run_mfm_loop.simps) (simp add: Let_def)
  next
    assume "35 < length rest \<and> ncols (sparsify_rhat (refit s rest)) \<noteq> 1"
    with a show "run_mfm_loop refit s iv R rolling
               = run_mfm_loop refit (Suc s) rest (sparsify_rhat (refit s rest)) rolling1"
      by (subst run_mfm_loop.simps) (simp add: Let_def)
  }
next
  assume a: "extract_round iv R rolling = Inr (rest, rolling1) \<and> stable_components R \<noteq> []"
  then have ex: "extract_round iv R rolling = Inr (rest, rolling1)"
    and st: "stable_components R \<noteq> []" by simp_all
  show "rolling1 = rolling @ map (points_of iv R) (stable_components R)"
    by (rule extract_round_stable(1) [OF ex st])
  show "rest = map (\<lambda>j. iv ! j)
            (filter (\<lambda>j. \<not> list_ex (\<lambda>k. j \<in> set (support R k)) (stable_components R))
               [0..<length iv])"
    by (rule extract_round_stable(2) [OF ex st])
next
  assume a: "extract_round iv R rolling = Inr (rest, rolling1) \<and> stable_components R = []"
  then have ex: "extract_round iv R rolling = Inr (rest, rolling1)"
    and st: "stable_components R = []" by simp_all
  from extract_round_most_stable [OF ex st]
  show "\<exists>m. np_argmax (map (stability_of R) [0..<ncols R]) = Inr m
           \<and> m < ncols R
           \<and> (\<forall>k<ncols R. \<not> flt (stability_of R m) (stability_of R k))
           \<and> rolling1 = rolling @ [points_of iv R m]
           \<and> rest = map (\<lambda>j. iv ! j) (filter (\<lambda>j. j \<notin> set (support R m)) [0..<length iv])"
    by blast
qed

lemma stability_loop_rounds_example:
  "run_mfm rhat_mixed (\<lambda>s iv. []) [True, False, True, True] = Inr ([[0, 2]], 1)
   \<and> (1::nat) \<le> 1000
   \<and> list_all (list_all (\<lambda>p. p < length (filter id [True, False, True, True]))) [[0, 2]]
   \<and> (0::nat) < 1000
   \<and> extract_round [0, 1, 2] (sparsify_rhat rhat_mixed) [] = Inr ([1], [[0, 2]])
   \<and> length [1::nat] \<le> 35
   \<and> run_mfm_loop (\<lambda>s iv. []) 0 [0, 1, 2] (sparsify_rhat rhat_mixed) [] = Inr ([[0, 2]], 1)
   \<and> stable_components (sparsify_rhat rhat_mixed) = []
   \<and> np_argmax (map (stability_of (sparsify_rhat rhat_mixed)) [0..<2]) = Inr 0
   \<and> extract_round [0, 1, 2] (sparsify_rhat rhat_clear) [] = Inr ([], [[0, 2], [1]])
   \<and> stable_components (sparsify_rhat rhat_clear) = [0, 1]"
proof -
  have a: "run_mfm rhat_mixed (\<lambda>s iv. []) [True, False, True, True] = Inr ([[0, 2]], 1)"
    by code_simp
  have b: "extract_round [0, 1, 2] (sparsify_rhat rhat_mixed) [] = Inr ([1], [[0, 2]])"
    by code_simp
  have c: "stable_components (sparsify_rhat rhat_mixed) = []" by code_simp
  have d: "np_argmax (map (stability_of (sparsify_rhat rhat_mixed)) [0..<2]) = Inr 0"
    by code_simp
  have e: "extract_round [0, 1, 2] (sparsify_rhat rhat_clear) [] = Inr ([], [[0, 2], [1]])"
    by code_simp
  have f: "stable_components (sparsify_rhat rhat_clear) = [0, 1]" by code_simp
  from stability_loop_rounds [of rhat_mixed "\<lambda>s iv. []" "[True, False, True, True]" "[[0, 2]]" 1 0
      "[0, 1, 2]" "sparsify_rhat rhat_mixed" "[]" "[1]" "[[0, 2]]"] a b
  have g: "run_mfm_loop (\<lambda>s iv. []) 0 [0, 1, 2] (sparsify_rhat rhat_mixed) [] = Inr ([[0, 2]], 1)"
    and h: "\<forall>g\<in>set [[0, 2::nat]]. \<forall>p\<in>set g. p < length (filter id [True, False, True, True])"
    by simp_all
  from h have "list_all (list_all (\<lambda>p. p < length (filter id [True, False, True, True]))) [[0, 2]]"
    by (simp add: list_all_iff)
  with a b c d e f g show ?thesis by simp
qed

text \<open>Three points and three components, the third with a responsibility of \<open>0.04\<close> on
  every point.\<close>

definition rhat_idle :: dense where
  "rhat_idle = replicate 3 [Fin (48 / 100), Fin (48 / 100), Fin (4 / 100)]"

text \<open>
  C8: the round does not extract the most stable component when a component is left
  without points. On \<open>rhat_idle\<close> the floor zeroes the third column, so the third
  component has no point with a responsibility above zero, and its stability, the
  \<^verbatim>\<open>np.mean\<close> of no values, is \<open>NaN\<close>. The stabilities are \<open>1/2\<close>, \<open>1/2\<close> and \<open>NaN\<close>;
  none exceeds \<open>0.90\<close>, and \<^verbatim>\<open>np.argmax\<close> returns the position of the \<open>NaN\<close>. The round
  appends an empty group and removes no point from the working set, although the first
  component has the stability \<open>1/2\<close> and all three points; \<^verbatim>\<open>run_mfm\<close> returns the one
  empty group, whatever the fits of the later rounds would be. The comments of that branch
  read \<^verbatim>\<open>remove most stable cluster\<close> and \<^verbatim>\<open>Find most stable index\<close>.
\<close>

theorem C8_empty_component_extracted:
  "sparsify_rhat rhat_idle = replicate 3 [Fin (1 / 2), Fin (1 / 2), Fin 0]
   \<and> map (stability_of (sparsify_rhat rhat_idle)) [0..<3] = [Fin (1 / 2), Fin (1 / 2), NaN]
   \<and> np_argmax [Fin (1 / 2), Fin (1 / 2), NaN] = Inr 2
   \<and> support (sparsify_rhat rhat_idle) 0 = [0, 1, 2]
   \<and> support (sparsify_rhat rhat_idle) 2 = []
   \<and> extract_round [0, 1, 2] (sparsify_rhat rhat_idle) [] = Inr ([0, 1, 2], [[]])
   \<and> run_mfm rhat_idle refit [True, True, True] = Inr ([[]], 1)"
  by code_simp

end
